theory Spec2Isabelle
  imports Main "HOL-Library.Word"
begin

section \<open>The string-keyed skip map of \<^verbatim>\<open>collection/skipmap/skipmap_str.go\<close>\<close>

text \<open>
  The development embeds the sequential behaviour of \<^verbatim>\<open>StringMap\<close>: one operation runs
  at a time on an explicit store of nodes. A pointer \<^verbatim>\<open>*stringNode\<close> is an optional
  address (\<open>None\<close> is \<^verbatim>\<open>nil\<close>), the store is the list of all nodes ever allocated, and
  an address is an index into it.

  An operation either panics (\<open>Some (Inl e)\<close>), returns (\<open>Some (Inr x)\<close>), or never
  returns (\<open>None\<close>): the retry loops of \<^verbatim>\<open>Store\<close> and \<^verbatim>\<open>Delete\<close> have no bound, and
  \<^verbatim>\<open>Lock\<close> on a mutex that is held blocks for ever when no other goroutine runs.
\<close>

subsection \<open>Results\<close>

datatype error = NilDereference | IndexOutOfRange | UnlockOfUnlockedMutex

type_synonym 'a res = "(error + 'a) option"

definition ret :: "'a \<Rightarrow> 'a res" where
  "ret x = Some (Inr x)"

definition panic :: "error \<Rightarrow> 'a res" where
  "panic e = Some (Inl e)"

definition bnd :: "'a res \<Rightarrow> ('a \<Rightarrow> 'b res) \<Rightarrow> 'b res" where
  "bnd m f = (case m of None \<Rightarrow> None | Some (Inl e) \<Rightarrow> Some (Inl e) | Some (Inr x) \<Rightarrow> f x)"

subsection \<open>Declarations the file uses from the rest of the package\<close>

text \<open>
  \<^verbatim>\<open>maxLevel\<close>, \<^verbatim>\<open>randomLevel\<close> and the hash \<^verbatim>\<open>wyhash.Sum64String\<close> are declared outside
  this file. They are parameters of the model: \<open>ml\<close> is \<^verbatim>\<open>maxLevel\<close>, \<open>hash\<close> is the
  function \<^verbatim>\<open>hash\<close> of the file, and the level drawn by \<^verbatim>\<open>randomLevel()\<close> is an argument
  of \<open>Store\<close>.
\<close>

datatype flag = fullyLinked | marked

type_synonym bitflag = "flag set"

text \<open>
  Modelled from the spec: the type \<^verbatim>\<open>bitflag\<close> and its constants are not in this file.
  The flag word holds two independent bits that are only ever set; \<open>Get\<close> tests one bit,
  \<open>SetTrue\<close> sets one, and \<open>MGet\<close> reads the bits of a mask and compares them as one unit.
\<close>

definition Get :: "bitflag \<Rightarrow> flag \<Rightarrow> bool" where
  "Get f b = (b \<in> f)"

definition SetTrue :: "bitflag \<Rightarrow> flag \<Rightarrow> bitflag" where
  "SetTrue f b = insert b f"

definition MGet :: "bitflag \<Rightarrow> flag set \<Rightarrow> flag set \<Rightarrow> bool" where
  "MGet f m expect = (f \<inter> m = expect)"

text \<open>
  Modelled from the spec: \<^verbatim>\<open>cmpstring\<close> is not in this file. It is the exact lexicographic
  comparison of two strings, byte by byte, with result \<open>-1\<close>, \<open>0\<close> or \<open>1\<close>.
\<close>

fun cmpstring :: "string \<Rightarrow> string \<Rightarrow> int" where
  "cmpstring [] [] = 0"
| "cmpstring [] (b # bs) = -1"
| "cmpstring (a # as) [] = 1"
| "cmpstring (a # as) (b # bs) =
     (if (of_char a :: nat) < of_char b then -1
      else if (of_char b :: nat) < of_char a then 1
      else cmpstring as bs)"

subsection \<open>Nodes and the map\<close>

type_synonym ptr = "nat option"

text \<open>
  \<open>val\<close> is the interface value behind the pointer \<^verbatim>\<open>value\<close> (\<open>None\<close> is the \<^verbatim>\<open>nil\<close>
  interface); \<open>nxt\<close> is the slice \<^verbatim>\<open>next\<close>; \<open>mu\<close> tells whether the mutex is held.
\<close>

record 'v stringNode =
  key :: string
  score :: "64 word"
  val :: "'v option"
  nxt :: "ptr list"
  mu :: bool
  flags :: bitflag

text \<open>
  \<open>nodes\<close> is the store of nodes, \<open>header\<close> and \<open>mlength\<close> are the fields \<^verbatim>\<open>header\<close> and
  \<^verbatim>\<open>length\<close> of \<^verbatim>\<open>StringMap\<close>.
\<close>

record 'v StringMap =
  nodes :: "'v stringNode list"
  header :: ptr
  mlength :: "64 word"

definition deref :: "'v stringNode list \<Rightarrow> ptr \<Rightarrow> 'v stringNode res" where
  "deref hs p =
     (case p of None \<Rightarrow> panic NilDereference
      | Some a \<Rightarrow> if a < length hs then ret (hs ! a) else panic NilDereference)"

definition newStringNode :: "(string \<Rightarrow> 64 word) \<Rightarrow> string \<Rightarrow> 'v option \<Rightarrow> nat \<Rightarrow> 'v stringNode" where
  "newStringNode hash k v level =
     \<lparr> key = k, score = hash k, val = v, nxt = replicate level None, mu = False, flags = {} \<rparr>"

definition cmp :: "'v stringNode \<Rightarrow> 64 word \<Rightarrow> string \<Rightarrow> int" where
  "cmp n sc k =
     (if sc < score n then 1
      else if score n = sc then cmpstring (key n) k
      else -1)"

definition loadNext :: "'v stringNode list \<Rightarrow> ptr \<Rightarrow> nat \<Rightarrow> ptr res" where
  "loadNext hs p i =
     bnd (deref hs p) (\<lambda>n. if i < length (nxt n) then ret (nxt n ! i) else panic IndexOutOfRange)"

definition storeNext :: "'v stringNode list \<Rightarrow> ptr \<Rightarrow> nat \<Rightarrow> ptr \<Rightarrow> 'v stringNode list res" where
  "storeNext hs p i q =
     bnd (deref hs p) (\<lambda>n.
       if i < length (nxt n) then ret (hs[the p := n\<lparr>nxt := (nxt n)[i := q]\<rparr>])
       else panic IndexOutOfRange)"

definition NewString :: "nat \<Rightarrow> (string \<Rightarrow> 64 word) \<Rightarrow> 'v option \<Rightarrow> 'v StringMap" where
  "NewString ml hash e =
     \<lparr> nodes = [(newStringNode hash '''' e ml)\<lparr>flags := SetTrue {} fullyLinked\<rparr>],
       header = Some 0, mlength = 0 \<rparr>"

lemma bnd_mono [partial_function_mono]:
  assumes mf: "mono_option B" and mg: "\<And>y. mono_option (\<lambda>f. C y f)"
  shows "mono_option (\<lambda>f. bnd (B f) (\<lambda>y. C y f))"
proof (rule monotoneI)
  fix f g :: "'a \<Rightarrow> 'b option"
  assume fg: "fun_ord option_ord f g"
  with mf have 1: "option_ord (B f) (B g)"
    by (rule monotoneD[of _ _ _ f g])
  have 2: "option_ord (C y f) (C y g)" for y
    using mg[of y] fg by (rule monotoneD[of _ _ "C y" f g])
  show "option_ord (bnd (B f) (\<lambda>y. C y f)) (bnd (B g) (\<lambda>y. C y g))"
  proof (cases "B f")
    case None
    then show ?thesis by (simp add: bnd_def flat_ord_def)
  next
    case (Some r)
    then have "B g = Some r" using 1 by (simp add: flat_ord_def)
    then show ?thesis using Some 2 by (cases r) (simp_all add: bnd_def flat_ord_def)
  qed
qed


definition Lock :: "'v stringNode list \<Rightarrow> ptr \<Rightarrow> 'v stringNode list res" where
  "Lock hs p =
     bnd (deref hs p) (\<lambda>n. if mu n then None else ret (hs[the p := n\<lparr>mu := True\<rparr>]))"

definition Unlock :: "'v stringNode list \<Rightarrow> ptr \<Rightarrow> 'v stringNode list res" where
  "Unlock hs p =
     bnd (deref hs p) (\<lambda>n.
       if mu n then ret (hs[the p := n\<lparr>mu := False\<rparr>]) else panic UnlockOfUnlockedMutex)"

subsection \<open>Search\<close>

text \<open>
  \<open>advance\<close> is the inner loop \<^verbatim>\<open>for succ != nil && succ.cmp(score, key) < 0\<close>, which
  \<^verbatim>\<open>findNode\<close>, \<^verbatim>\<open>findNodeDelete\<close> and \<^verbatim>\<open>Load\<close> all contain. It returns the final \<^verbatim>\<open>x\<close>
  and \<^verbatim>\<open>succ\<close>. On a store whose links form a cycle of smaller nodes it does not return.
\<close>

partial_function (option) advance ::
  "'v stringNode list \<Rightarrow> 64 word \<Rightarrow> string \<Rightarrow> nat \<Rightarrow> ptr \<Rightarrow> ptr \<Rightarrow> (ptr \<times> ptr) res" where
  "advance hs sc k i x succ =
     (case succ of None \<Rightarrow> ret (x, succ)
      | Some a \<Rightarrow>
          bnd (deref hs succ) (\<lambda>n.
            if cmp n sc k < 0
            then bnd (loadNext hs succ i) (\<lambda>nx. advance hs sc k i succ nx)
            else ret (x, succ)))"

declare advance.simps [code]


text \<open>
  The outer loops run \<^verbatim>\<open>i\<close> from \<^verbatim>\<open>maxLevel - 1\<close> down to \<open>0\<close>; the argument \<open>Suc i\<close>
  of the recursion is the number of levels left. The arrays \<^verbatim>\<open>preds\<close> and \<^verbatim>\<open>succs\<close>
  are passed in and returned, since the callers keep them across retries.
\<close>

fun findNode_loop ::
  "'v stringNode list \<Rightarrow> 64 word \<Rightarrow> string \<Rightarrow> nat \<Rightarrow> ptr \<Rightarrow> ptr list \<Rightarrow> ptr list
     \<Rightarrow> (ptr \<times> ptr list \<times> ptr list) res" where
  "findNode_loop hs sc k 0 x preds succs = ret (None, preds, succs)"
| "findNode_loop hs sc k (Suc i) x preds succs =
     bnd (loadNext hs x i) (\<lambda>succ0.
     bnd (advance hs sc k i x succ0) (\<lambda>(x', succ).
       if i < length preds \<and> i < length succs then
         (case succ of
            None \<Rightarrow> findNode_loop hs sc k i x' (preds[i := x']) (succs[i := succ])
          | Some a \<Rightarrow>
              bnd (deref hs succ) (\<lambda>n.
                if cmp n sc k = 0 then ret (succ, preds[i := x'], succs[i := succ])
                else findNode_loop hs sc k i x' (preds[i := x']) (succs[i := succ])))
       else panic IndexOutOfRange))"

definition findNode ::
  "nat \<Rightarrow> (string \<Rightarrow> 64 word) \<Rightarrow> 'v StringMap \<Rightarrow> string \<Rightarrow> ptr list \<Rightarrow> ptr list
     \<Rightarrow> (ptr \<times> ptr list \<times> ptr list) res" where
  "findNode ml hash s k preds succs = findNode_loop (nodes s) (hash k) k ml (header s) preds succs"

fun findNodeDelete_loop ::
  "'v stringNode list \<Rightarrow> 64 word \<Rightarrow> string \<Rightarrow> nat \<Rightarrow> int \<Rightarrow> ptr \<Rightarrow> ptr list \<Rightarrow> ptr list
     \<Rightarrow> (int \<times> ptr list \<times> ptr list) res" where
  "findNodeDelete_loop hs sc k 0 lFound x preds succs = ret (lFound, preds, succs)"
| "findNodeDelete_loop hs sc k (Suc i) lFound x preds succs =
     bnd (loadNext hs x i) (\<lambda>succ0.
     bnd (advance hs sc k i x succ0) (\<lambda>(x', succ).
       if i < length preds \<and> i < length succs then
         (case succ of
            None \<Rightarrow> findNodeDelete_loop hs sc k i lFound x' (preds[i := x']) (succs[i := succ])
          | Some a \<Rightarrow>
              bnd (deref hs succ) (\<lambda>n.
                findNodeDelete_loop hs sc k i
                  (if lFound = -1 \<and> cmp n sc k = 0 then int i else lFound)
                  x' (preds[i := x']) (succs[i := succ])))
       else panic IndexOutOfRange))"

definition findNodeDelete ::
  "nat \<Rightarrow> (string \<Rightarrow> 64 word) \<Rightarrow> 'v StringMap \<Rightarrow> string \<Rightarrow> ptr list \<Rightarrow> ptr list
     \<Rightarrow> (int \<times> ptr list \<times> ptr list) res" where
  "findNodeDelete ml hash s k preds succs =
     findNodeDelete_loop (nodes s) (hash k) k ml (-1) (header s) preds succs"

fun unlock_loop :: "'v stringNode list \<Rightarrow> ptr list \<Rightarrow> nat \<Rightarrow> ptr \<Rightarrow> 'v stringNode list res" where
  "unlock_loop hs preds 0 prevPred = ret hs"
| "unlock_loop hs preds (Suc i) prevPred =
     (if i < length preds then
        (if preds ! i \<noteq> prevPred
         then bnd (Unlock hs (preds ! i)) (\<lambda>hs'. unlock_loop hs' preds i (preds ! i))
         else unlock_loop hs preds i prevPred)
      else panic IndexOutOfRange)"

definition unlockString :: "'v stringNode list \<Rightarrow> ptr list \<Rightarrow> int \<Rightarrow> 'v stringNode list res" where
  "unlockString hs preds highestLevel = unlock_loop hs preds (nat (highestLevel + 1)) None"

subsection \<open>Load\<close>

fun Load_loop ::
  "'v stringNode list \<Rightarrow> 64 word \<Rightarrow> string \<Rightarrow> nat \<Rightarrow> ptr \<Rightarrow> ('v option \<times> bool) res" where
  "Load_loop hs sc k 0 x = ret (None, False)"
| "Load_loop hs sc k (Suc i) x =
     bnd (loadNext hs x i) (\<lambda>nex0.
     bnd (advance hs sc k i x nex0) (\<lambda>(x', nex).
       case nex of
         None \<Rightarrow> Load_loop hs sc k i x'
       | Some a \<Rightarrow>
           bnd (deref hs nex) (\<lambda>n.
             if cmp n sc k = 0 then
               (if MGet (flags n) {fullyLinked, marked} {fullyLinked}
                then ret (val n, True) else ret (None, False))
             else Load_loop hs sc k i x')))"

definition Load ::
  "nat \<Rightarrow> (string \<Rightarrow> 64 word) \<Rightarrow> string \<Rightarrow> 'v StringMap \<Rightarrow> ('v option \<times> bool) res" where
  "Load ml hash k s = Load_loop (nodes s) (hash k) k ml (header s)"

subsection \<open>Store\<close>

text \<open>
  The locking loop of \<^verbatim>\<open>Store\<close>: it returns the store, \<^verbatim>\<open>highestLocked\<close> and \<^verbatim>\<open>valid\<close>.
  The conjunction that computes \<^verbatim>\<open>valid\<close> is evaluated left to right and stops at the
  first false conjunct.
\<close>

function lock_insert ::
  "'v stringNode list \<Rightarrow> ptr list \<Rightarrow> ptr list \<Rightarrow> nat \<Rightarrow> nat \<Rightarrow> int \<Rightarrow> ptr
     \<Rightarrow> ('v stringNode list \<times> int \<times> bool) res" where
  "lock_insert hs preds succs level layer highestLocked prevPred =
     (if layer < level then
        (if layer < length preds \<and> layer < length succs then
           bnd (if preds ! layer \<noteq> prevPred
                then bnd (Lock hs (preds ! layer)) (\<lambda>hs'. ret (hs', int layer, preds ! layer))
                else ret (hs, highestLocked, prevPred)) (\<lambda>(hs', highestLocked', prevPred').
           bnd (deref hs' (preds ! layer)) (\<lambda>pn.
           bnd (if Get (flags pn) marked then ret False
                else bnd (case succs ! layer of None \<Rightarrow> ret True
                          | Some b \<Rightarrow> bnd (deref hs' (succs ! layer)) (\<lambda>sn. ret (\<not> Get (flags sn) marked)))
                     (\<lambda>ok. if ok then bnd (loadNext hs' (preds ! layer) layer) (\<lambda>q. ret (q = succs ! layer))
                           else ret False)) (\<lambda>valid.
             if valid then lock_insert hs' preds succs level (Suc layer) highestLocked' prevPred'
             else ret (hs', highestLocked', False))))
         else panic IndexOutOfRange)
      else ret (hs, highestLocked, True))"
  by pat_completeness auto
termination
  by (relation "measure (\<lambda>(hs, preds, succs, level, layer, hl, pp). level - layer)") auto

declare lock_insert.simps [simp del]

text \<open>The loop that links the new node \<^verbatim>\<open>nn\<close> in, from layer \<open>0\<close> up.\<close>

function link_insert ::
  "'v stringNode list \<Rightarrow> ptr list \<Rightarrow> ptr list \<Rightarrow> ptr \<Rightarrow> nat \<Rightarrow> nat \<Rightarrow> 'v stringNode list res" where
  "link_insert hs preds succs nn level layer =
     (if layer < level then
        (if layer < length preds \<and> layer < length succs then
           bnd (storeNext hs nn layer (succs ! layer)) (\<lambda>hs1.
           bnd (storeNext hs1 (preds ! layer) layer nn) (\<lambda>hs2.
             link_insert hs2 preds succs nn level (Suc layer)))
         else panic IndexOutOfRange)
      else ret hs)"
  by pat_completeness auto
termination
  by (relation "measure (\<lambda>(hs, preds, succs, nn, level, layer). level - layer)") auto

declare link_insert.simps [simp del]

text \<open>
  The body of \<^verbatim>\<open>Store\<close>'s \<^verbatim>\<open>for\<close> loop. After a new node is linked and the counter is
  incremented the source has no \<^verbatim>\<open>return\<close>: control goes round the loop again, where
  \<^verbatim>\<open>findNode\<close> meets the node just linked and the value is stored a second time.
\<close>

partial_function (option) Store_loop ::
  "nat \<Rightarrow> (string \<Rightarrow> 64 word) \<Rightarrow> string \<Rightarrow> 'v option \<Rightarrow> nat \<Rightarrow> ptr list \<Rightarrow> ptr list
     \<Rightarrow> 'v StringMap \<Rightarrow> 'v StringMap res" where
  "Store_loop ml hash k v level preds succs s =
     bnd (findNode ml hash s k preds succs) (\<lambda>(nodeFound, preds, succs).
       case nodeFound of
         Some a \<Rightarrow>
           bnd (deref (nodes s) nodeFound) (\<lambda>n.
             if \<not> Get (flags n) marked
             then ret (s\<lparr>nodes := (nodes s)[a := n\<lparr>val := v\<rparr>]\<rparr>)
             else Store_loop ml hash k v level preds succs s)
       | None \<Rightarrow>
           bnd (lock_insert (nodes s) preds succs level 0 (-1) None) (\<lambda>(hs, highestLocked, valid).
             if \<not> valid
             then bnd (unlockString hs preds highestLocked) (\<lambda>hs'.
                    Store_loop ml hash k v level preds succs (s\<lparr>nodes := hs'\<rparr>))
             else
               bnd (link_insert (hs @ [newStringNode hash k v level]) preds succs
                      (Some (length hs)) level 0) (\<lambda>hs2.
               bnd (deref hs2 (Some (length hs))) (\<lambda>n.
               bnd (unlockString (hs2[length hs := n\<lparr>flags := SetTrue (flags n) fullyLinked\<rparr>])
                      preds highestLocked) (\<lambda>hs4.
                 Store_loop ml hash k v level preds succs
                   (s\<lparr>nodes := hs4, mlength := mlength s + 1\<rparr>))))))"

declare Store_loop.simps [code]

definition Store ::
  "nat \<Rightarrow> (string \<Rightarrow> 64 word) \<Rightarrow> string \<Rightarrow> 'v option \<Rightarrow> nat \<Rightarrow> 'v StringMap \<Rightarrow> 'v StringMap res" where
  "Store ml hash k v level s =
     Store_loop ml hash k v level (replicate ml None) (replicate ml None) s"


subsection \<open>LoadAndDelete and Delete\<close>

text \<open>
  The test \<^verbatim>\<open>isMarked || lFound != -1 && succs[lFound].flags.MGet(...) && ...\<close>,
  evaluated left to right.
\<close>

definition can_delete :: "'v stringNode list \<Rightarrow> bool \<Rightarrow> int \<Rightarrow> ptr list \<Rightarrow> bool res" where
  "can_delete hs isMarked lFound succs =
     (if isMarked then ret True
      else if lFound = -1 then ret False
      else if 0 \<le> lFound \<and> nat lFound < length succs then
        bnd (deref hs (succs ! nat lFound)) (\<lambda>n.
          ret (MGet (flags n) {fullyLinked, marked} {fullyLinked}
               \<and> int (length (nxt n)) - 1 = lFound))
      else panic IndexOutOfRange)"

text \<open>
  The block under \<^verbatim>\<open>if !isMarked\<close>: \<open>Inl\<close> is the early return after finding the node
  marked (with the store after the unlock), \<open>Inr\<close> carries the store, \<^verbatim>\<open>nodeToDelete\<close> and
  \<^verbatim>\<open>topLayer\<close> on.
\<close>

definition mark_node ::
  "'v stringNode list \<Rightarrow> bool \<Rightarrow> int \<Rightarrow> ptr list \<Rightarrow> ptr \<Rightarrow> int
     \<Rightarrow> ('v stringNode list + 'v stringNode list \<times> ptr \<times> int) res" where
  "mark_node hs isMarked lFound succs nodeToDelete topLayer =
     (if \<not> isMarked then
        bnd (Lock hs (succs ! nat lFound)) (\<lambda>hs1.
        bnd (deref hs1 (succs ! nat lFound)) (\<lambda>n.
          if Get (flags n) marked
          then bnd (Unlock hs1 (succs ! nat lFound)) (\<lambda>hs2. ret (Inl hs2))
          else ret (Inr (hs1[the (succs ! nat lFound) := n\<lparr>flags := SetTrue (flags n) marked\<rparr>],
                         succs ! nat lFound, lFound))))
      else ret (Inr (hs, nodeToDelete, topLayer)))"

function lock_delete ::
  "'v stringNode list \<Rightarrow> ptr list \<Rightarrow> ptr list \<Rightarrow> int \<Rightarrow> nat \<Rightarrow> int \<Rightarrow> ptr
     \<Rightarrow> ('v stringNode list \<times> int \<times> bool) res" where
  "lock_delete hs preds succs topLayer layer highestLocked prevPred =
     (if int layer \<le> topLayer then
        (if layer < length preds \<and> layer < length succs then
           bnd (if preds ! layer \<noteq> prevPred
                then bnd (Lock hs (preds ! layer)) (\<lambda>hs'. ret (hs', int layer, preds ! layer))
                else ret (hs, highestLocked, prevPred)) (\<lambda>(hs', highestLocked', prevPred').
           bnd (deref hs' (preds ! layer)) (\<lambda>pn.
           bnd (if Get (flags pn) marked then ret False
                else bnd (loadNext hs' (preds ! layer) layer) (\<lambda>q. ret (q = succs ! layer))) (\<lambda>valid.
             if valid then lock_delete hs' preds succs topLayer (Suc layer) highestLocked' prevPred'
             else ret (hs', highestLocked', False))))
         else panic IndexOutOfRange)
      else ret (hs, highestLocked, True))"
  by pat_completeness auto
termination
  by (relation "measure (\<lambda>(hs, preds, succs, topLayer, layer, hl, pp). nat (topLayer + 1) - layer)") auto

declare lock_delete.simps [simp del]

text \<open>
  The unlinking loop \<^verbatim>\<open>for i := topLayer; i >= 0; i--\<close>; the argument \<open>Suc i\<close> is the
  number of layers left.
\<close>

fun unlink :: "'v stringNode list \<Rightarrow> ptr list \<Rightarrow> ptr \<Rightarrow> nat \<Rightarrow> 'v stringNode list res" where
  "unlink hs preds nodeToDelete 0 = ret hs"
| "unlink hs preds nodeToDelete (Suc i) =
     bnd (deref hs nodeToDelete) (\<lambda>n.
       if i < length preds \<and> i < length (nxt n) then
         bnd (storeNext hs (preds ! i) i (nxt n ! i)) (\<lambda>hs'. unlink hs' preds nodeToDelete i)
       else panic IndexOutOfRange)"

text \<open>
  The body of the \<^verbatim>\<open>for\<close> loop of \<^verbatim>\<open>LoadAndDelete\<close>. \<^verbatim>\<open>Delete\<close> has the same body,
  statement for statement, and only drops the two results at each \<^verbatim>\<open>return\<close>.
\<close>

partial_function (option) LoadAndDelete_loop ::
  "nat \<Rightarrow> (string \<Rightarrow> 64 word) \<Rightarrow> string \<Rightarrow> ptr \<Rightarrow> bool \<Rightarrow> int \<Rightarrow> ptr list \<Rightarrow> ptr list
     \<Rightarrow> 'v StringMap \<Rightarrow> (('v option \<times> bool) \<times> 'v StringMap) res" where
  "LoadAndDelete_loop ml hash k nodeToDelete isMarked topLayer preds succs s =
     bnd (findNodeDelete ml hash s k preds succs) (\<lambda>(lFound, preds, succs).
     bnd (can_delete (nodes s) isMarked lFound succs) (\<lambda>go.
       if go then
         bnd (mark_node (nodes s) isMarked lFound succs nodeToDelete topLayer) (\<lambda>r.
           case r of
             Inl hs \<Rightarrow> ret ((None, False), s\<lparr>nodes := hs\<rparr>)
           | Inr (hs, nodeToDelete, topLayer) \<Rightarrow>
               bnd (lock_delete hs preds succs topLayer 0 (-1) None) (\<lambda>(hs1, highestLocked, valid).
                 if \<not> valid
                 then bnd (unlockString hs1 preds highestLocked) (\<lambda>hs2.
                        LoadAndDelete_loop ml hash k nodeToDelete True topLayer preds succs
                          (s\<lparr>nodes := hs2\<rparr>))
                 else
                   bnd (unlink hs1 preds nodeToDelete (nat (topLayer + 1))) (\<lambda>hs2.
                   bnd (Unlock hs2 nodeToDelete) (\<lambda>hs3.
                   bnd (unlockString hs3 preds highestLocked) (\<lambda>hs4.
                   bnd (deref hs4 nodeToDelete) (\<lambda>n.
                     ret ((val n, True), s\<lparr>nodes := hs4, mlength := mlength s - 1\<rparr>)))))))
       else ret ((None, False), s)))"

declare LoadAndDelete_loop.simps [code]

definition LoadAndDelete ::
  "nat \<Rightarrow> (string \<Rightarrow> 64 word) \<Rightarrow> string \<Rightarrow> 'v StringMap
     \<Rightarrow> (('v option \<times> bool) \<times> 'v StringMap) res" where
  "LoadAndDelete ml hash k s =
     LoadAndDelete_loop ml hash k None False (-1) (replicate ml None) (replicate ml None) s"

definition Delete ::
  "nat \<Rightarrow> (string \<Rightarrow> 64 word) \<Rightarrow> string \<Rightarrow> 'v StringMap \<Rightarrow> 'v StringMap res" where
  "Delete ml hash k s = bnd (LoadAndDelete ml hash k s) (\<lambda>(r, s'). ret s')"

subsection \<open>LoadOrStore, Range and Len\<close>

definition LoadOrStore ::
  "nat \<Rightarrow> (string \<Rightarrow> 64 word) \<Rightarrow> string \<Rightarrow> 'v option \<Rightarrow> nat \<Rightarrow> 'v StringMap
     \<Rightarrow> (('v option \<times> bool) \<times> 'v StringMap) res" where
  "LoadOrStore ml hash k v level s =
     bnd (Load ml hash k s) (\<lambda>(loadedval, ok).
       if \<not> ok then bnd (Store ml hash k v level s) (\<lambda>s'. ret ((None, False), s'))
       else ret ((loadedval, True), s))"





text \<open>A stand-in for the hash in concrete instances: the length of the key.\<close>

definition len_hash :: "string \<Rightarrow> 64 word" where
  "len_hash k = of_nat (length k)"

section \<open>Well-formed stores\<close>

text \<open>
  \<open>before hash a b\<close>: key \<open>a\<close> sorts strictly before key \<open>b\<close>, by score and then by the
  string comparison; this is \<open>cmp n (hash b) b < 0\<close> for a node \<open>n\<close> with key \<open>a\<close> and score
  \<open>hash a\<close>.
\<close>

definition before :: "(string \<Rightarrow> 64 word) \<Rightarrow> string \<Rightarrow> string \<Rightarrow> bool" where
  "before hash a b = (hash a < hash b \<or> (hash a = hash b \<and> cmpstring a b < 0))"

text \<open>
  \<open>path hs i p as q\<close>: following the links of level \<open>i\<close> from the pointer \<open>p\<close> visits
  exactly the nodes \<open>as\<close>, in this order, and then reaches the pointer \<open>q\<close>.
\<close>

fun path :: "'v stringNode list \<Rightarrow> nat \<Rightarrow> ptr \<Rightarrow> nat list \<Rightarrow> ptr \<Rightarrow> bool" where
  "path hs i p [] q = (p = q)"
| "path hs i p (a # as) q =
     (p = Some a \<and> a < length hs \<and> i < length (nxt (hs ! a)) \<and> path hs i (nxt (hs ! a) ! i) as q)"

text \<open>The nodes of \<open>xs\<close> whose links array reaches level \<open>i\<close>.\<close>

definition lev :: "'v stringNode list \<Rightarrow> nat \<Rightarrow> nat list \<Rightarrow> nat list" where
  "lev hs i xs = filter (\<lambda>a. i < length (nxt (hs ! a))) xs"

text \<open>
  \<open>skiplist ml hash hs xs\<close>: the store \<open>hs\<close> holds a skip list whose header is node \<open>0\<close> and
  whose nodes are \<open>xs\<close>, in the order of level \<open>0\<close>. The header has \<open>ml\<close> links; every other
  node has between \<open>1\<close> and \<open>ml\<close> links and the score of its key; the keys ascend strictly;
  and level \<open>i\<close> links the header to exactly the nodes that reach level \<open>i\<close>.
\<close>

definition skiplist :: "nat \<Rightarrow> (string \<Rightarrow> 64 word) \<Rightarrow> 'v stringNode list \<Rightarrow> nat list \<Rightarrow> bool" where
  "skiplist ml hash hs xs =
     (0 < ml \<and> 0 \<notin> set xs \<and> distinct xs
      \<and> (\<forall>a\<in>set xs. 0 < length (nxt (hs ! a)) \<and> length (nxt (hs ! a)) \<le> ml
                      \<and> score (hs ! a) = hash (key (hs ! a)))
      \<and> sorted_wrt (\<lambda>a b. before hash (key (hs ! a)) (key (hs ! b))) xs
      \<and> length (nxt (hs ! 0)) = ml
      \<and> (\<forall>i\<in>{..<ml}. path hs i (Some 0) (0 # lev hs i xs) None))"

text \<open>
  \<open>quiescent ml hash s xs\<close>: no operation is in flight on the map \<open>s\<close>. Its store holds a
  skip list with nodes \<open>xs\<close>, every node of the list is fully linked, unmarked and unlocked,
  and the counter is the number of nodes.
\<close>

definition quiescent :: "nat \<Rightarrow> (string \<Rightarrow> 64 word) \<Rightarrow> 'v StringMap \<Rightarrow> nat list \<Rightarrow> bool" where
  "quiescent ml hash s xs =
     (header s = Some 0 \<and> skiplist ml hash (nodes s) xs
      \<and> (\<forall>a\<in>set (0 # xs). \<not> mu (nodes s ! a) \<and> flags (nodes s ! a) = {fullyLinked})
      \<and> mlength s = of_nat (length xs))"

text \<open>The keys and values of the nodes \<open>xs\<close>, in order.\<close>

definition entries :: "'v stringNode list \<Rightarrow> nat list \<Rightarrow> (string \<times> 'v option) list" where
  "entries hs xs = map (\<lambda>a. (key (hs ! a), val (hs ! a))) xs"

text \<open>The pointer to the first node of a list of nodes, nil when there is none.\<close>

definition first_of :: "nat list \<Rightarrow> ptr" where
  "first_of xs = (case xs of [] \<Rightarrow> None | a # _ \<Rightarrow> Some a)"

text \<open>
  \<open>cut hs sc k xs xs1 xs2\<close>: the nodes \<open>xs1\<close> of \<open>xs\<close> compare less than the target
  \<open>(sc, k)\<close> and the remaining nodes \<open>xs2\<close> do not.
\<close>

definition cut :: "'v stringNode list \<Rightarrow> 64 word \<Rightarrow> string \<Rightarrow> nat list \<Rightarrow> nat list \<Rightarrow> nat list \<Rightarrow> bool" where
  "cut hs sc k xs xs1 xs2 =
     (xs = xs1 @ xs2 \<and> (\<forall>a\<in>set xs1. cmp (hs ! a) sc k < 0) \<and> (\<forall>a\<in>set xs2. \<not> cmp (hs ! a) sc k < 0))"

text \<open>
  At level \<open>i\<close>, the last node before the cut (the header when there is none) and the
  first node after it.
\<close>

definition pred_at :: "'v stringNode list \<Rightarrow> nat \<Rightarrow> nat list \<Rightarrow> nat" where
  "pred_at hs i xs1 = last (0 # lev hs i xs1)"

definition succ_at :: "'v stringNode list \<Rightarrow> nat \<Rightarrow> nat list \<Rightarrow> ptr" where
  "succ_at hs i xs2 = first_of (lev hs i xs2)"

text \<open>The node of \<open>xs\<close> that holds the key \<open>k\<close>, if there is one.\<close>

definition lookup :: "'v stringNode list \<Rightarrow> string \<Rightarrow> nat list \<Rightarrow> nat option" where
  "lookup hs k xs = find (\<lambda>a. key (hs ! a) = k) xs"

text \<open>
  \<open>set_mu A b hs\<close> is the store \<open>hs\<close> with the mutex of every node in \<open>A\<close> set to \<open>b\<close>;
  \<open>relink f hs\<close> is \<open>hs\<close> with link \<open>j\<close> of node \<open>a\<close> replaced by \<open>q\<close> wherever
  \<open>f a j = Some q\<close>. They describe what the locking and linking loops have done to a store.
\<close>

definition set_mu :: "nat set \<Rightarrow> bool \<Rightarrow> 'v stringNode list \<Rightarrow> 'v stringNode list" where
  "set_mu A b hs = map (\<lambda>a. if a \<in> A then (hs ! a)\<lparr>mu := b\<rparr> else hs ! a) [0..<length hs]"

definition relink :: "(nat \<Rightarrow> nat \<Rightarrow> ptr option) \<Rightarrow> 'v stringNode list \<Rightarrow> 'v stringNode list" where
  "relink f hs =
     map (\<lambda>a. (hs ! a)\<lparr>nxt := map (\<lambda>j. case f a j of None \<Rightarrow> nxt (hs ! a) ! j | Some q \<Rightarrow> q)
                                [0..<length (nxt (hs ! a))]\<rparr>)
         [0..<length hs]"

text \<open>
  \<open>convex p n\<close>: among the first \<open>n\<close> levels, the levels with the same predecessor are
  adjacent, so that comparing with the previous level's predecessor detects every repeat.
\<close>

definition convex :: "(nat \<Rightarrow> nat) \<Rightarrow> nat \<Rightarrow> bool" where
  "convex p n = (\<forall>i l j. i \<le> l \<and> l \<le> j \<and> j < n \<and> p i = p j \<longrightarrow> p l = p i)"

text \<open>
  The store after a node for \<open>k\<close> with \<open>level\<close> links has been linked in between the nodes
  \<open>xs1\<close> and \<open>xs2\<close>: the new node has the next free address, and at each level below
  \<open>level\<close> the predecessor's link is turned to it.
\<close>

definition inserted ::
  "(string \<Rightarrow> 64 word) \<Rightarrow> string \<Rightarrow> 'v option \<Rightarrow> nat \<Rightarrow> 'v stringNode list \<Rightarrow> nat list \<Rightarrow> nat list
     \<Rightarrow> 'v stringNode list" where
  "inserted hash k v level hs xs1 xs2 =
     relink (\<lambda>a j. if j < level \<and> a = pred_at hs j xs1 then Some (Some (length hs)) else None) hs
     @ [\<lparr> key = k, score = hash k, val = v, nxt = map (\<lambda>j. succ_at hs j xs2) [0..<level],
          mu = False, flags = {fullyLinked} \<rparr>]"

text \<open>
  The store after the node \<open>b\<close> that follows the nodes \<open>xs1\<close> has been marked and unlinked:
  at each of its levels the predecessor's link is turned to the successor of \<open>b\<close>.
\<close>

definition removed :: "'v stringNode list \<Rightarrow> nat list \<Rightarrow> nat \<Rightarrow> 'v stringNode list" where
  "removed hs xs1 b =
     (relink (\<lambda>a j. if j < length (nxt (hs ! b)) \<and> a = pred_at hs j xs1
                     then Some (nxt (hs ! b) ! j) else None) hs)
       [b := (hs ! b)\<lparr>flags := insert marked (flags (hs ! b))\<rparr>]"


text \<open>The finite map that a list of nodes stands for.\<close>

definition amap :: "'v stringNode list \<Rightarrow> nat list \<Rightarrow> string \<rightharpoonup> 'v option" where
  "amap hs xs = map_of (entries hs xs)"

text \<open>
  The states of a map that start from \<open>NewString\<close> and go through calls of \<open>Store\<close> (with a
  level between \<open>1\<close> and \<open>ml\<close>) and \<open>Delete\<close> that return, one call at a time.
\<close>

inductive reachable :: "nat \<Rightarrow> (string \<Rightarrow> 64 word) \<Rightarrow> 'v StringMap \<Rightarrow> bool"
  for ml :: nat and hash :: "string \<Rightarrow> 64 word" where
  new: "reachable ml hash (NewString ml hash e)"
| store: "reachable ml hash s \<Longrightarrow> 0 < level \<Longrightarrow> level \<le> ml
            \<Longrightarrow> Store ml hash k v level s = Some (Inr s') \<Longrightarrow> reachable ml hash s'"
| delete: "reachable ml hash s \<Longrightarrow> Delete ml hash k s = Some (Inr s') \<Longrightarrow> reachable ml hash s'"

text \<open>
  \<open>other_ops ml hash k s s'\<close>: the map goes from \<open>s\<close> to \<open>s'\<close> through calls of \<open>Store\<close> and
  \<open>Delete\<close> that return and whose key is not \<open>k\<close>.
\<close>

inductive other_ops :: "nat \<Rightarrow> (string \<Rightarrow> 64 word) \<Rightarrow> string \<Rightarrow> 'v StringMap \<Rightarrow> 'v StringMap \<Rightarrow> bool"
  for ml :: nat and hash :: "string \<Rightarrow> 64 word" and k :: string where
  none: "other_ops ml hash k s s"
| store: "other_ops ml hash k s s1 \<Longrightarrow> k' \<noteq> k \<Longrightarrow> 0 < level \<Longrightarrow> level \<le> ml
            \<Longrightarrow> Store ml hash k' v level s1 = Some (Inr s2) \<Longrightarrow> other_ops ml hash k s s2"
| delete: "other_ops ml hash k s s1 \<Longrightarrow> k' \<noteq> k
            \<Longrightarrow> Delete ml hash k' s1 = Some (Inr s2) \<Longrightarrow> other_ops ml hash k s s2"

text \<open>Concrete maps for the instances below, with \<open>maxLevel = 2\<close> and values in \<open>nat\<close>.\<close>

definition empty_map :: "nat StringMap" where
  "empty_map = NewString 2 len_hash None"

definition one_key_map :: "nat StringMap" where
  "one_key_map =
     \<lparr> nodes = [\<lparr> key = '''', score = 0, val = None, nxt = [Some 1, Some 1], mu = False,
                  flags = {fullyLinked} \<rparr>,
                \<lparr> key = ''a'', score = 1, val = Some 1, nxt = [None, None], mu = False,
                  flags = {fullyLinked} \<rparr>],
       header = Some 0, mlength = 1 \<rparr>"

definition two_key_map :: "nat StringMap" where
  "two_key_map =
     \<lparr> nodes = [\<lparr> key = '''', score = 0, val = None, nxt = [Some 1, Some 1], mu = False,
                  flags = {fullyLinked} \<rparr>,
                \<lparr> key = ''a'', score = 1, val = Some 1, nxt = [Some 2, None], mu = False,
                  flags = {fullyLinked} \<rparr>,
                \<lparr> key = ''bc'', score = 2, val = Some 7, nxt = [None], mu = False,
                  flags = {fullyLinked} \<rparr>],
       header = Some 0, mlength = 2 \<rparr>"

text \<open>The map \<open>one_key_map\<close> at the moment another goroutine has marked the node of \<open>''a''\<close>.\<close>

definition marked_map :: "nat StringMap" where
  "marked_map =
     \<lparr> nodes = [\<lparr> key = '''', score = 0, val = None, nxt = [Some 1, Some 1], mu = False,
                  flags = {fullyLinked} \<rparr>,
                \<lparr> key = ''a'', score = 1, val = Some 1, nxt = [None, None], mu = True,
                  flags = {fullyLinked, marked} \<rparr>],
       header = Some 0, mlength = 1 \<rparr>"

text \<open>
  The empty map at the moment another goroutine's \<open>Store\<close> of \<open>''a''\<close>, with level \<open>1\<close>, has
  linked its new node and has not yet set \<open>fullyLinked\<close>: it still holds the mutex of the
  header and has not yet added to the counter.
\<close>

definition pending_map :: "nat StringMap" where
  "pending_map =
     \<lparr> nodes = [\<lparr> key = '''', score = 0, val = None, nxt = [Some 1, None], mu = True,
                  flags = {fullyLinked} \<rparr>,
                \<lparr> key = ''a'', score = 1, val = Some 1, nxt = [None], mu = False,
                  flags = {} \<rparr>],
       header = Some 0, mlength = 0 \<rparr>"

text \<open>The same moment of a \<open>Store\<close> of the empty key.\<close>

definition pending_empty_key_map :: "nat StringMap" where
  "pending_empty_key_map =
     \<lparr> nodes = [\<lparr> key = '''', score = 0, val = None, nxt = [Some 1, None], mu = True,
                  flags = {fullyLinked} \<rparr>,
                \<lparr> key = '''', score = 0, val = Some 1, nxt = [None], mu = False,
                  flags = {} \<rparr>],
       header = Some 0, mlength = 0 \<rparr>"

section \<open>Results and the helper functions\<close>

lemma bnd_ret [simp]: "bnd (ret x) f = f x"
  by (simp add: bnd_def ret_def)

lemma bnd_panic [simp]: "bnd (panic e) f = panic e"
  by (simp add: bnd_def panic_def)

lemma bnd_None [simp]: "bnd None f = None"
  by (simp add: bnd_def)

lemma ret_neq [simp]: "ret x \<noteq> None" "ret x \<noteq> panic e" "panic e \<noteq> ret x" "None \<noteq> ret x"
  by (simp_all add: ret_def panic_def)

lemma ret_inject [simp]: "(ret x = ret y) = (x = y)"
  by (simp add: ret_def)

lemma ret_Some [simp]: "(ret x = Some (Inr y)) = (x = y)" "(Some (Inr y) = ret x) = (y = x)"
  by (auto simp add: ret_def)

lemma deref_Some [simp]: "a < length hs \<Longrightarrow> deref hs (Some a) = ret (hs ! a)"
  by (simp add: deref_def)

lemma loadNext_Some [simp]:
  "a < length hs \<Longrightarrow> i < length (nxt (hs ! a)) \<Longrightarrow> loadNext hs (Some a) i = ret (nxt (hs ! a) ! i)"
  by (simp add: loadNext_def)

subsection \<open>The comparison is a strict total order\<close>

lemma cmpstring_refl [simp]: "cmpstring a a = 0"
  by (induction a) simp_all

lemma of_char_nat_eq:
  "\<not> (of_char a :: nat) < of_char b \<Longrightarrow> \<not> (of_char b :: nat) < of_char a \<Longrightarrow> a = b"
proof -
  assume "\<not> (of_char a :: nat) < of_char b" "\<not> (of_char b :: nat) < of_char a"
  then have "(of_char a :: nat) = of_char b" by linarith
  then show "a = b" by (simp only: of_char_eq_iff)
qed

lemma cmpstring_eq_0: "cmpstring a b = 0 \<Longrightarrow> a = b"
proof (induction a b rule: cmpstring.induct)
  case (4 a as b bs)
  then show ?case by (simp split: if_splits add: of_char_nat_eq)
qed simp_all

lemma cmpstring_0_iff [simp]: "cmpstring a b = 0 \<longleftrightarrow> a = b"
proof
  assume "cmpstring a b = 0"
  then show "a = b" by (rule cmpstring_eq_0)
next
  assume "a = b"
  then show "cmpstring a b = 0" by simp
qed

lemma cmpstring_trans: "cmpstring a b < 0 \<Longrightarrow> cmpstring b c < 0 \<Longrightarrow> cmpstring a c < 0"
proof (induction a b arbitrary: c rule: cmpstring.induct)
  case (1)
  then show ?case by simp
next
  case (2 b bs)
  then show ?case by (cases c) (simp_all split: if_splits)
next
  case (3 a as)
  then show ?case by simp
next
  case (4 a as b bs)
  show ?case
  proof (cases c)
    case Nil
    then show ?thesis using 4 by simp
  next
    case (Cons d ds)
    show ?thesis
    proof (cases "(of_char a :: nat) < of_char b")
      case True
      have "\<not> (of_char d :: nat) < of_char b"
        using 4(3) Cons by (simp split: if_splits)
      then have "(of_char a :: nat) < of_char d"
        using True by linarith
      then show ?thesis using Cons by simp
    next
      case False
      then have ab: "a = b" and r: "cmpstring as bs < 0"
        using 4(2) by (simp_all split: if_splits add: of_char_nat_eq)
      show ?thesis
      proof (cases "(of_char b :: nat) < of_char d")
        case True
        then show ?thesis using ab Cons by simp
      next
        case F2: False
        then have bd: "b = d" and r2: "cmpstring bs ds < 0"
          using 4(3) Cons by (simp_all split: if_splits add: of_char_nat_eq)
        have "cmpstring as ds < 0"
          using 4(1) False r r2 ab by simp
        then show ?thesis using ab bd Cons by simp
      qed
    qed
  qed
qed

lemma cmpstring_asym: "cmpstring a b < 0 \<Longrightarrow> \<not> cmpstring b a < 0"
proof (induction a b rule: cmpstring.induct)
  case (4 a as b bs)
  then show ?case by (simp split: if_splits)
qed simp_all

lemma cmpstring_total: "cmpstring a b < 0 \<or> a = b \<or> cmpstring b a < 0"
proof (induction a b rule: cmpstring.induct)
  case (4 a as b bs)
  then show ?case
    by (cases "(of_char a :: nat) < of_char b"; cases "(of_char b :: nat) < of_char a")
       (simp_all add: of_char_nat_eq)
qed simp_all

section \<open>The header node\<close>

text \<open>
  C2 (as amended). The header made by \<open>NewString\<close> has key \<open>''''\<close> and score
  \<open>hash ''''\<close>, and its links array has \<open>ml\<close> entries, all nil. It sorts strictly before a
  key \<open>k\<close> exactly when \<open>hash '''' < hash k\<close>, or the two scores are equal and \<open>k\<close> is not
  empty; in particular it compares equal to the key \<open>''''\<close>.
\<close>

theorem header_node:
  "header (NewString ml hash e) = Some 0
   \<and> key (nodes (NewString ml hash e) ! 0) = ''''
   \<and> score (nodes (NewString ml hash e) ! 0) = hash ''''
   \<and> nxt (nodes (NewString ml hash e) ! 0) = replicate ml None
   \<and> length (nxt (nodes (NewString ml hash e) ! 0)) = ml
   \<and> (cmp (nodes (NewString ml hash e) ! 0) (hash k) k < 0
        \<longleftrightarrow> hash '''' < hash k \<or> (hash '''' = hash k \<and> k \<noteq> ''''))
   \<and> cmp (nodes (NewString ml hash e) ! 0) (hash '''') '''' = 0"
proof -
  have "cmpstring '''' k < 0 \<longleftrightarrow> k \<noteq> ''''"
    by (cases k) simp_all
  then show ?thesis
    by (auto simp add: NewString_def newStringNode_def cmp_def)
qed

theorem header_node_witness:
  "header (NewString 2 len_hash (None :: nat option)) = Some 0
   \<and> nxt (nodes (NewString 2 len_hash (None :: nat option)) ! 0) = [None, None]
   \<and> cmp (nodes (NewString 2 len_hash (None :: nat option)) ! 0) (len_hash ''a'') ''a'' < 0"
  using header_node [of 2 len_hash "None :: nat option" "''a''"]
  by (simp add: len_hash_def numeral_2_eq_2)

text \<open>
  The header does not sort strictly before every key: it compares equal to the empty key.
\<close>

theorem header_not_before_empty_key:
  "\<not> cmp (nodes (NewString 2 len_hash (None :: nat option)) ! 0) (len_hash '''') '''' < 0"
  by (simp add: NewString_def newStringNode_def cmp_def)

section \<open>Searching a well-formed store\<close>

lemma path_append:
  "path hs i p (as @ bs) q \<longleftrightarrow> (\<exists>r. path hs i p as r \<and> path hs i r bs q)"
  by (induction as arbitrary: p) auto

lemma path_frame:
  assumes "path hs i p as q"
    and "length hs \<le> length hs'"
    and "\<And>a. a \<in> set as \<Longrightarrow> a < length hs \<Longrightarrow>
           length (nxt (hs' ! a)) = length (nxt (hs ! a)) \<and> nxt (hs' ! a) ! i = nxt (hs ! a) ! i"
  shows "path hs' i p as q"
  using assms
proof (induction as arbitrary: p)
  case Nil
  then show ?case by simp
next
  case (Cons a as)
  then show ?case by auto
qed

lemma path_last_next:
  "path hs i p (as @ [c]) q \<Longrightarrow> c < length hs \<and> i < length (nxt (hs ! c)) \<and> nxt (hs ! c) ! i = q"
  by (auto simp add: path_append)

lemma advance_path:
  assumes "path hs i succ as q"
    and "\<forall>a\<in>set as. cmp (hs ! a) sc k < 0"
    and "q = None \<or> (\<exists>b. q = Some b \<and> b < length hs \<and> \<not> cmp (hs ! b) sc k < 0)"
  shows "advance hs sc k i x succ = ret (last (x # map Some as), q)"
  using assms
proof (induction as arbitrary: x succ)
  case Nil
  then show ?case
    by (subst advance.simps) auto
next
  case (Cons a as)
  have "advance hs sc k i (Some a) (nxt (hs ! a) ! i) = ret (last (Some a # map Some as), q)"
    using Cons.prems by (intro Cons.IH) auto
  then show ?case
    using Cons.prems by (subst advance.simps) auto
qed

lemma lev_append [simp]: "lev hs i (as @ bs) = lev hs i as @ lev hs i bs"
  by (simp add: lev_def)

lemma lev_subset: "set (lev hs i xs) \<subseteq> set xs"
  by (auto simp add: lev_def)

lemma lev_Suc_subset: "set (lev hs (Suc i) xs) \<subseteq> set (lev hs i xs)"
  by (auto simp add: lev_def)

lemma lev_mem: "a \<in> set (lev hs i xs) \<longleftrightarrow> a \<in> set xs \<and> i < length (nxt (hs ! a))"
  by (auto simp add: lev_def)

lemma first_of_simps [simp]: "first_of [] = None" "first_of (a # as) = Some a"
  by (simp_all add: first_of_def)

lemma path_first: "path hs i p zs None \<Longrightarrow> p = first_of zs"
  by (cases zs) auto

lemma path_first_bound: "path hs i p zs None \<Longrightarrow> p = Some b \<Longrightarrow> b < length hs \<and> b \<in> set zs"
  by (cases zs) auto

lemma skiplist_path:
  "skiplist ml hash hs xs \<Longrightarrow> i < ml \<Longrightarrow> path hs i (Some 0) (0 # lev hs i xs) None"
  by (simp add: skiplist_def)

lemma last_mem_level:
  "last (0 # lev hs (Suc i) xs1) \<in> set (0 # lev hs i xs1)"
proof (cases "lev hs (Suc i) xs1 = []")
  case True
  then show ?thesis by simp
next
  case False
  then have "last (0 # lev hs (Suc i) xs1) \<in> set (lev hs (Suc i) xs1)"
    by simp
  then show ?thesis using lev_Suc_subset [of hs i xs1] by auto
qed

lemma level_step:
  assumes sk: "skiplist ml hash hs xs"
    and ct: "cut hs sc k xs xs1 xs2"
    and i: "i < ml"
    and x: "x = last (0 # lev hs (Suc i) xs1)"
  shows "\<exists>q. loadNext hs (Some x) i = ret q
           \<and> advance hs sc k i (Some x) q = ret (Some (last (0 # lev hs i xs1)), first_of (lev hs i xs2))"
proof -
  have xs: "xs = xs1 @ xs2" using ct by (simp add: cut_def)
  have full: "path hs i (Some 0) ((0 # lev hs i xs1) @ lev hs i xs2) None"
    using skiplist_path [OF sk i] xs by simp
  have "x \<in> set (0 # lev hs i xs1)"
    unfolding x by (rule last_mem_level)
  then obtain us as where split: "0 # lev hs i xs1 = us @ x # as"
    by (meson split_list)
  have "path hs i (Some 0) (us @ x # (as @ lev hs i xs2)) None"
    using full split by simp
  then obtain r where "path hs i r (x # (as @ lev hs i xs2)) None"
    unfolding path_append by blast
  then have xb: "x < length hs" "i < length (nxt (hs ! x))"
    and rest: "path hs i (nxt (hs ! x) ! i) (as @ lev hs i xs2) None"
    by simp_all
  from rest obtain q where pa: "path hs i (nxt (hs ! x) ! i) as q"
    and pb: "path hs i q (lev hs i xs2) None"
    unfolding path_append by blast
  have q: "q = first_of (lev hs i xs2)"
    using pb by (rule path_first)
  have small: "\<forall>a\<in>set as. cmp (hs ! a) sc k < 0"
  proof
    fix a assume "a \<in> set as"
    then have "a \<in> set (0 # lev hs i xs1)" using split by simp
    moreover have "a \<noteq> 0"
    proof
      assume "a = 0"
      then have a0: "0 \<in> set as" using \<open>a \<in> set as\<close> by simp
      have "distinct (0 # lev hs i xs1)"
        using sk xs by (simp add: skiplist_def lev_def)
      then have d: "distinct (us @ x # as)"
        using split by simp
      show False
      proof (cases us)
        case Nil
        then show ?thesis using split d a0 by simp
      next
        case (Cons u us')
        then have "u = 0" using split by simp
        then show ?thesis using Cons d a0 by auto
      qed
    qed
    ultimately have "a \<in> set xs1" using lev_subset [of hs i xs1] by auto
    then show "cmp (hs ! a) sc k < 0" using ct by (simp add: cut_def)
  qed
  have big: "q = None \<or> (\<exists>b. q = Some b \<and> b < length hs \<and> \<not> cmp (hs ! b) sc k < 0)"
  proof (cases q)
    case None
    then show ?thesis by simp
  next
    case (Some b)
    then have "b < length hs" "b \<in> set (lev hs i xs2)"
      using path_first_bound [OF pb] by simp_all
    then show ?thesis using Some ct lev_subset [of hs i xs2] by (auto simp add: cut_def)
  qed
  have "advance hs sc k i (Some x) (nxt (hs ! x) ! i) = ret (last (Some x # map Some as), q)"
    using pa small big by (rule advance_path)
  moreover have "last (Some x # map Some as) = Some (last (0 # lev hs i xs1))"
    unfolding split by (simp add: last_map)
  ultimately show ?thesis
    using xb q by simp
qed

lemma cmp_less_iff:
  "score n = hash (key n) \<Longrightarrow> cmp n (hash k) k < 0 \<longleftrightarrow> before hash (key n) k"
  by (auto simp add: cmp_def before_def)

lemma cmp_eq_iff:
  "score n = hash (key n) \<Longrightarrow> cmp n (hash k) k = 0 \<longleftrightarrow> key n = k"
  by (auto simp add: cmp_def)

lemma before_trans: "before hash a b \<Longrightarrow> before hash b c \<Longrightarrow> before hash a c"
  unfolding before_def using cmpstring_trans [of a b c] by auto

lemma before_irrefl [simp]: "\<not> before hash a a"
  by (simp add: before_def)

lemma before_asym: "before hash a b \<Longrightarrow> \<not> before hash b a"
  unfolding before_def using cmpstring_asym [of a b] by auto

lemma before_total: "before hash a b \<or> a = b \<or> before hash b a"
  unfolding before_def using cmpstring_total [of a b] by auto

lemma dropWhile_sorted:
  assumes "sorted_wrt R xs" and "\<And>a b. R a b \<Longrightarrow> P b \<Longrightarrow> P a"
  shows "\<forall>a\<in>set (dropWhile P xs). \<not> P a"
  using assms(1)
proof (induction xs)
  case Nil
  then show ?case by simp
next
  case (Cons x xs)
  show ?case
  proof (cases "P x")
    case True
    have "sorted_wrt R xs" using Cons.prems by simp
    then have "\<forall>a\<in>set (dropWhile P xs). \<not> P a" by (rule Cons.IH)
    then show ?thesis using True by simp
  next
    case False
    have "\<not> P a" if "a \<in> set xs" for a
    proof
      assume "P a"
      moreover have "R x a" using Cons.prems that by simp
      ultimately have "P x" using assms(2) by blast
      then show False using False by simp
    qed
    then show ?thesis using False by simp
  qed
qed

text \<open>Every well-formed list splits at a key; only the first node after the split can hold it.\<close>

lemma cut_exists:
  assumes sk: "skiplist ml hash hs xs"
  obtains xs1 xs2 where "cut hs (hash k) k xs xs1 xs2"
    and "\<forall>a\<in>set xs1. key (hs ! a) \<noteq> k"
    and "\<forall>a\<in>set (tl xs2). key (hs ! a) \<noteq> k"
proof -
  define P where "P = (\<lambda>a. before hash (key (hs ! a)) k)"
  define xs1 where "xs1 = takeWhile P xs"
  define xs2 where "xs2 = dropWhile P xs"
  have xs: "xs = xs1 @ xs2" by (simp add: xs1_def xs2_def)
  have sc: "score (hs ! a) = hash (key (hs ! a))" if "a \<in> set xs" for a
    using sk that by (simp add: skiplist_def)
  have srt: "sorted_wrt (\<lambda>a b. before hash (key (hs ! a)) (key (hs ! b))) xs"
    using sk by (simp add: skiplist_def)
  have p1: "\<forall>a\<in>set xs1. P a"
    unfolding xs1_def by (auto dest: set_takeWhileD)
  have p2: "\<forall>a\<in>set xs2. \<not> P a"
    unfolding xs2_def
    by (rule dropWhile_sorted [OF srt]) (auto simp add: P_def intro: before_trans)
  have c: "cut hs (hash k) k xs xs1 xs2"
    unfolding cut_def using xs p1 p2 sc by (auto simp add: P_def cmp_less_iff)
  have n1: "\<forall>a\<in>set xs1. key (hs ! a) \<noteq> k"
    using p1 by (auto simp add: P_def)
  have n2: "\<forall>a\<in>set (tl xs2). key (hs ! a) \<noteq> k"
  proof (cases xs2)
    case Nil
    then show ?thesis by simp
  next
    case (Cons b bs)
    have "before hash (key (hs ! b)) (key (hs ! a))" if "a \<in> set bs" for a
      using srt that unfolding xs Cons by (simp add: sorted_wrt_append)
    moreover have "\<not> P b" using p2 Cons by simp
    ultimately show ?thesis using Cons by (auto simp add: P_def)
  qed
  show thesis using that c n1 n2 by blast
qed

lemma cut_scores:
  "skiplist ml hash hs xs \<Longrightarrow> cut hs sc k xs xs1 xs2 \<Longrightarrow> a \<in> set xs1 \<or> a \<in> set xs2
     \<Longrightarrow> score (hs ! a) = hash (key (hs ! a)) \<and> 0 < length (nxt (hs ! a))
         \<and> length (nxt (hs ! a)) \<le> ml"
  by (auto simp add: skiplist_def cut_def)

lemma lev_top: "skiplist ml hash hs xs \<Longrightarrow> set ys \<subseteq> set xs \<Longrightarrow> lev hs ml ys = []"
proof -
  assume sk: "skiplist ml hash hs xs" and sub: "set ys \<subseteq> set xs"
  have "\<not> ml < length (nxt (hs ! a))" if "a \<in> set ys" for a
  proof -
    have "a \<in> set xs" using that sub by blast
    then have "length (nxt (hs ! a)) \<le> ml" using sk by (simp add: skiplist_def)
    then show ?thesis by simp
  qed
  then show ?thesis by (simp add: lev_def filter_empty_conv)
qed


lemma level_step2:
  assumes sk: "skiplist ml hash hs xs"
    and ct: "cut hs sc k xs xs1 xs2"
    and i: "i < ml"
  shows "\<exists>q. loadNext hs (Some (pred_at hs (Suc i) xs1)) i = ret q
           \<and> advance hs sc k i (Some (pred_at hs (Suc i) xs1)) q = ret (Some (pred_at hs i xs1), succ_at hs i xs2)"
  unfolding pred_at_def succ_at_def using level_step [OF sk ct i refl] .

lemma pred_at_top: "skiplist ml hash hs xs \<Longrightarrow> set xs1 \<subseteq> set xs \<Longrightarrow> pred_at hs ml xs1 = 0"
  by (simp add: pred_at_def lev_top)

lemma succ_at_Nil: "lev hs i xs2 = [] \<Longrightarrow> succ_at hs i xs2 = None"
  by (simp add: succ_at_def)

lemma succ_at_Cons: "lev hs i xs2 = c # cs \<Longrightarrow> succ_at hs i xs2 = Some c"
  by (simp add: succ_at_def)


declare succ_at_def [simp]

text \<open>The arrays after the levels below \<open>n\<close> have been searched.\<close>

lemma findNode_loop_absent:
  assumes sk: "skiplist ml hash hs xs"
    and ct: "cut hs (hash k) k xs xs1 xs2"
    and no: "\<forall>a\<in>set xs2. key (hs ! a) \<noteq> k"
  shows "n \<le> ml \<Longrightarrow> length preds = ml \<Longrightarrow> length succs = ml \<Longrightarrow>
     findNode_loop hs (hash k) k n (Some (pred_at hs n xs1)) preds succs =
       ret (None,
            map (\<lambda>j. if j < n then Some (pred_at hs j xs1) else preds ! j) [0..<ml],
            map (\<lambda>j. if j < n then succ_at hs j xs2 else succs ! j) [0..<ml])"
proof (induction n arbitrary: preds succs)
  case 0
  have "map ((!) preds) [0..<ml] = preds" "map ((!) succs) [0..<ml] = succs"
    using map_nth [of preds] map_nth [of succs] 0 by simp_all
  then show ?case by simp
next
  case (Suc i)
  have i: "i < ml" using Suc.prems by simp
  obtain q where q: "loadNext hs (Some (pred_at hs (Suc i) xs1)) i = ret q"
    and adv: "advance hs (hash k) k i (Some (pred_at hs (Suc i) xs1)) q =
                ret (Some (pred_at hs i xs1), succ_at hs i xs2)"
    using level_step2 [OF sk ct i] by blast
  let ?preds = "preds[i := Some (pred_at hs i xs1)]"
  let ?succs = "succs[i := succ_at hs i xs2]"
  have IH: "findNode_loop hs (hash k) k i (Some (pred_at hs i xs1)) ?preds ?succs =
       ret (None,
            map (\<lambda>j. if j < i then Some (pred_at hs j xs1) else ?preds ! j) [0..<ml],
            map (\<lambda>j. if j < i then succ_at hs j xs2 else ?succs ! j) [0..<ml])"
    using Suc.prems by (intro Suc.IH) simp_all
  have e1: "map (\<lambda>j. if j < i then Some (pred_at hs j xs1) else ?preds ! j) [0..<ml]
          = map (\<lambda>j. if j < Suc i then Some (pred_at hs j xs1) else preds ! j) [0..<ml]"
    using Suc.prems by (intro map_cong refl) (simp add: nth_list_update less_Suc_eq)
  have e2: "map (\<lambda>j. if j < i then succ_at hs j xs2 else ?succs ! j) [0..<ml]
          = map (\<lambda>j. if j < Suc i then succ_at hs j xs2 else succs ! j) [0..<ml]"
    using Suc.prems by (intro map_cong refl) (simp add: nth_list_update less_Suc_eq)
  show ?case
  proof (cases "lev hs i xs2")
    case Nil
    then show ?thesis
      using q adv IH e1 e2 Suc.prems by simp
  next
    case (Cons c cs)
    then have "c \<in> set xs2" using lev_subset [of hs i xs2] by auto
    then have "key (hs ! c) \<noteq> k" "score (hs ! c) = hash (key (hs ! c))" "c \<in> set xs"
      using no cut_scores [OF sk ct, of c] ct by (auto simp add: cut_def)
    moreover have "c < length hs"
      using skiplist_path [OF sk i] \<open>c \<in> set xs\<close> Cons ct
      by (auto simp add: cut_def path_append)
    ultimately show ?thesis
      using q adv IH e1 e2 Suc.prems Cons by (simp add: cmp_eq_iff)
  qed
qed

lemma level_first_bound:
  assumes sk: "skiplist ml hash hs xs" and ct: "cut hs sc k xs xs1 xs2" and i: "i < ml"
    and c: "lev hs i xs2 = c # cs"
  shows "c < length hs \<and> c \<in> set xs2"
proof -
  have "path hs i (Some 0) ((0 # lev hs i xs1) @ lev hs i xs2) None"
    using skiplist_path [OF sk i] ct by (simp add: cut_def)
  then obtain r where "path hs i r (lev hs i xs2) None"
    unfolding path_append by blast
  then have "c < length hs" using c by simp
  moreover have "c \<in> set xs2" using lev_subset [of hs i xs2] c by auto
  ultimately show ?thesis by simp
qed

lemma findNode_loop_present:
  assumes sk: "skiplist ml hash hs xs"
    and ct: "cut hs (hash k) k xs xs1 (b # bs)"
    and b: "key (hs ! b) = k"
    and no: "\<forall>a\<in>set bs. key (hs ! a) \<noteq> k"
  shows "n \<le> ml \<Longrightarrow> length (nxt (hs ! b)) \<le> n \<Longrightarrow> length preds = ml \<Longrightarrow> length succs = ml \<Longrightarrow>
     \<exists>preds' succs'. findNode_loop hs (hash k) k n (Some (pred_at hs n xs1)) preds succs =
       ret (Some b, preds', succs')"
proof (induction n arbitrary: preds succs)
  case 0
  then show ?case using cut_scores [OF sk ct, of b] by simp
next
  case (Suc i)
  have i: "i < ml" using Suc.prems by simp
  obtain q where q: "loadNext hs (Some (pred_at hs (Suc i) xs1)) i = ret q"
    and adv: "advance hs (hash k) k i (Some (pred_at hs (Suc i) xs1)) q =
                ret (Some (pred_at hs i xs1), succ_at hs i (b # bs))"
    using level_step2 [OF sk ct i] by blast
  have sb: "score (hs ! b) = hash (key (hs ! b))"
    using cut_scores [OF sk ct, of b] by simp
  show ?case
  proof (cases "i < length (nxt (hs ! b))")
    case True
    then have l: "lev hs i (b # bs) = b # lev hs i bs" by (simp add: lev_def)
    have "b < length hs" using level_first_bound [OF sk ct i l] by simp
    then show ?thesis
      using q adv l Suc.prems b sb by (simp add: cmp_eq_iff)
  next
    case False
    then have l: "lev hs i (b # bs) = lev hs i bs" by (simp add: lev_def)
    let ?preds = "preds[i := Some (pred_at hs i xs1)]"
    let ?succs = "succs[i := succ_at hs i bs]"
    have "\<exists>preds' succs'. findNode_loop hs (hash k) k i (Some (pred_at hs i xs1)) ?preds ?succs =
       ret (Some b, preds', succs')"
      using Suc.prems False by (intro Suc.IH) simp_all
    then obtain preds' succs' where
      IH: "findNode_loop hs (hash k) k i (Some (pred_at hs i xs1)) ?preds ?succs =
       ret (Some b, preds', succs')" by blast
    show ?thesis
    proof (cases "lev hs i bs")
      case Nil
      then show ?thesis using q adv l IH Suc.prems by simp
    next
      case (Cons c cs)
      then have cb: "c < length hs" "c \<in> set (b # bs)"
        using level_first_bound [OF sk ct i] l by simp_all
      have "c \<in> set bs" using Cons lev_subset [of hs i bs] by auto
      then have "key (hs ! c) \<noteq> k" using no by simp
      moreover have "score (hs ! c) = hash (key (hs ! c))"
        using cut_scores [OF sk ct, of c] cb by simp
      ultimately show ?thesis
        using q adv l IH Suc.prems Cons cb by (simp add: cmp_eq_iff)
    qed
  qed
qed

lemma Load_loop_absent:
  assumes sk: "skiplist ml hash hs xs"
    and ct: "cut hs (hash k) k xs xs1 xs2"
    and no: "\<forall>a\<in>set xs2. key (hs ! a) \<noteq> k"
  shows "n \<le> ml \<Longrightarrow>
     Load_loop hs (hash k) k n (Some (pred_at hs n xs1)) = ret (None, False)"
proof (induction n)
  case 0
  then show ?case by simp
next
  case (Suc i)
  have i: "i < ml" using Suc.prems by simp
  obtain q where q: "loadNext hs (Some (pred_at hs (Suc i) xs1)) i = ret q"
    and adv: "advance hs (hash k) k i (Some (pred_at hs (Suc i) xs1)) q =
                ret (Some (pred_at hs i xs1), succ_at hs i xs2)"
    using level_step2 [OF sk ct i] by blast
  have IH: "Load_loop hs (hash k) k i (Some (pred_at hs i xs1)) = ret (None, False)"
    using Suc.prems by (intro Suc.IH) simp
  show ?case
  proof (cases "lev hs i xs2")
    case Nil
    then show ?thesis using q adv IH by simp
  next
    case (Cons c cs)
    then have cb: "c < length hs" "c \<in> set xs2"
      using level_first_bound [OF sk ct i] by simp_all
    then have "key (hs ! c) \<noteq> k" "score (hs ! c) = hash (key (hs ! c))"
      using no cut_scores [OF sk ct, of c] by simp_all
    then show ?thesis
      using q adv IH Cons cb by (simp add: cmp_eq_iff)
  qed
qed

lemma Load_loop_present:
  assumes sk: "skiplist ml hash hs xs"
    and ct: "cut hs (hash k) k xs xs1 (b # bs)"
    and b: "key (hs ! b) = k"
    and no: "\<forall>a\<in>set bs. key (hs ! a) \<noteq> k"
  shows "n \<le> ml \<Longrightarrow> length (nxt (hs ! b)) \<le> n \<Longrightarrow>
     Load_loop hs (hash k) k n (Some (pred_at hs n xs1)) =
       ret (if MGet (flags (hs ! b)) {fullyLinked, marked} {fullyLinked}
            then (val (hs ! b), True) else (None, False))"
proof (induction n)
  case 0
  then show ?case using cut_scores [OF sk ct, of b] by simp
next
  case (Suc i)
  have i: "i < ml" using Suc.prems by simp
  obtain q where q: "loadNext hs (Some (pred_at hs (Suc i) xs1)) i = ret q"
    and adv: "advance hs (hash k) k i (Some (pred_at hs (Suc i) xs1)) q =
                ret (Some (pred_at hs i xs1), succ_at hs i (b # bs))"
    using level_step2 [OF sk ct i] by blast
  have sb: "score (hs ! b) = hash (key (hs ! b))"
    using cut_scores [OF sk ct, of b] by simp
  show ?case
  proof (cases "i < length (nxt (hs ! b))")
    case True
    then have l: "lev hs i (b # bs) = b # lev hs i bs" by (simp add: lev_def)
    have "b < length hs" using level_first_bound [OF sk ct i l] by simp
    then show ?thesis
      using q adv l b sb by (simp add: cmp_eq_iff)
  next
    case False
    then have l: "lev hs i (b # bs) = lev hs i bs" by (simp add: lev_def)
    have IH: "Load_loop hs (hash k) k i (Some (pred_at hs i xs1)) =
       ret (if MGet (flags (hs ! b)) {fullyLinked, marked} {fullyLinked}
            then (val (hs ! b), True) else (None, False))"
      using Suc.prems False by (intro Suc.IH) simp_all
    show ?thesis
    proof (cases "lev hs i bs")
      case Nil
      then show ?thesis using q adv l IH by simp
    next
      case (Cons c cs)
      then have cb: "c < length hs" "c \<in> set (b # bs)"
        using level_first_bound [OF sk ct i] l by simp_all
      have "c \<in> set bs" using Cons lev_subset [of hs i bs] by auto
      then have "key (hs ! c) \<noteq> k" using no by simp
      moreover have "score (hs ! c) = hash (key (hs ! c))"
        using cut_scores [OF sk ct, of c] cb by simp
      ultimately show ?thesis
        using q adv l IH Cons cb by (simp add: cmp_eq_iff)
    qed
  qed
qed

lemma fill_step:
  "i < ml \<Longrightarrow> length arr = ml \<Longrightarrow>
   map (\<lambda>j. if j < i then f j else arr[i := f i] ! j) [0..<ml]
     = map (\<lambda>j. if j < Suc i then f j else arr ! j) [0..<ml]"
  by (intro map_cong refl) (simp add: nth_list_update less_Suc_eq)

lemma findNodeDelete_loop_absent:
  assumes sk: "skiplist ml hash hs xs"
    and ct: "cut hs (hash k) k xs xs1 xs2"
    and no: "\<forall>a\<in>set xs2. key (hs ! a) \<noteq> k"
  shows "n \<le> ml \<Longrightarrow> length preds = ml \<Longrightarrow> length succs = ml \<Longrightarrow>
     findNodeDelete_loop hs (hash k) k n lf (Some (pred_at hs n xs1)) preds succs =
       ret (lf,
            map (\<lambda>j. if j < n then Some (pred_at hs j xs1) else preds ! j) [0..<ml],
            map (\<lambda>j. if j < n then succ_at hs j xs2 else succs ! j) [0..<ml])"
proof (induction n arbitrary: preds succs)
  case 0
  have "map ((!) preds) [0..<ml] = preds" "map ((!) succs) [0..<ml] = succs"
    using map_nth [of preds] map_nth [of succs] 0 by simp_all
  then show ?case by simp
next
  case (Suc i)
  have i: "i < ml" using Suc.prems by simp
  obtain q where q: "loadNext hs (Some (pred_at hs (Suc i) xs1)) i = ret q"
    and adv: "advance hs (hash k) k i (Some (pred_at hs (Suc i) xs1)) q =
                ret (Some (pred_at hs i xs1), succ_at hs i xs2)"
    using level_step2 [OF sk ct i] by blast
  let ?preds = "preds[i := Some (pred_at hs i xs1)]"
  let ?succs = "succs[i := succ_at hs i xs2]"
  have IH: "findNodeDelete_loop hs (hash k) k i lf (Some (pred_at hs i xs1)) ?preds ?succs =
       ret (lf,
            map (\<lambda>j. if j < i then Some (pred_at hs j xs1) else ?preds ! j) [0..<ml],
            map (\<lambda>j. if j < i then succ_at hs j xs2 else ?succs ! j) [0..<ml])"
    using Suc.prems by (intro Suc.IH) simp_all
  have e1: "map (\<lambda>j. if j < i then Some (pred_at hs j xs1) else ?preds ! j) [0..<ml]
          = map (\<lambda>j. if j < Suc i then Some (pred_at hs j xs1) else preds ! j) [0..<ml]"
    using Suc.prems i by (intro fill_step) simp_all
  have e2: "map (\<lambda>j. if j < i then succ_at hs j xs2 else ?succs ! j) [0..<ml]
          = map (\<lambda>j. if j < Suc i then succ_at hs j xs2 else succs ! j) [0..<ml]"
    using Suc.prems i by (intro fill_step) simp_all
  show ?case
  proof (cases "lev hs i xs2")
    case Nil
    then show ?thesis
      using q adv IH e1 e2 Suc.prems by simp
  next
    case (Cons c cs)
    then have cb: "c < length hs" "c \<in> set xs2"
      using level_first_bound [OF sk ct i] by simp_all
    then have "key (hs ! c) \<noteq> k" "score (hs ! c) = hash (key (hs ! c))"
      using no cut_scores [OF sk ct, of c] by simp_all
    then show ?thesis
      using q adv IH e1 e2 Suc.prems Cons cb by (simp add: cmp_eq_iff)
  qed
qed

lemma findNodeDelete_loop_present:
  assumes sk: "skiplist ml hash hs xs"
    and ct: "cut hs (hash k) k xs xs1 (b # bs)"
    and b: "key (hs ! b) = k"
    and no: "\<forall>a\<in>set bs. key (hs ! a) \<noteq> k"
  shows "n \<le> ml \<Longrightarrow> length preds = ml \<Longrightarrow> length succs = ml \<Longrightarrow>
     (lf = -1 \<and> length (nxt (hs ! b)) \<le> n) \<or> lf = int (length (nxt (hs ! b))) - 1 \<Longrightarrow>
     findNodeDelete_loop hs (hash k) k n lf (Some (pred_at hs n xs1)) preds succs =
       ret (int (length (nxt (hs ! b))) - 1,
            map (\<lambda>j. if j < n then Some (pred_at hs j xs1) else preds ! j) [0..<ml],
            map (\<lambda>j. if j < n then succ_at hs j (b # bs) else succs ! j) [0..<ml])"
proof (induction n arbitrary: preds succs lf)
  case 0
  have "map ((!) preds) [0..<ml] = preds" "map ((!) succs) [0..<ml] = succs"
    using map_nth [of preds] map_nth [of succs] 0 by simp_all
  moreover have "0 < length (nxt (hs ! b))"
    using cut_scores [OF sk ct, of b] by simp
  ultimately show ?case using 0 by auto
next
  case (Suc i)
  have i: "i < ml" using Suc.prems by simp
  have hb: "0 < length (nxt (hs ! b))" and sb: "score (hs ! b) = hash (key (hs ! b))"
    using cut_scores [OF sk ct, of b] by simp_all
  obtain q where q: "loadNext hs (Some (pred_at hs (Suc i) xs1)) i = ret q"
    and adv: "advance hs (hash k) k i (Some (pred_at hs (Suc i) xs1)) q =
                ret (Some (pred_at hs i xs1), succ_at hs i (b # bs))"
    using level_step2 [OF sk ct i] by blast
  let ?preds = "preds[i := Some (pred_at hs i xs1)]"
  let ?succs = "succs[i := succ_at hs i (b # bs)]"
  have IH: "findNodeDelete_loop hs (hash k) k i lf' (Some (pred_at hs i xs1)) ?preds ?succs =
       ret (int (length (nxt (hs ! b))) - 1,
            map (\<lambda>j. if j < i then Some (pred_at hs j xs1) else ?preds ! j) [0..<ml],
            map (\<lambda>j. if j < i then succ_at hs j (b # bs) else ?succs ! j) [0..<ml])"
    if "(lf' = -1 \<and> length (nxt (hs ! b)) \<le> i) \<or> lf' = int (length (nxt (hs ! b))) - 1" for lf'
    using Suc.prems(1-3) that by (intro Suc.IH) simp_all
  have e1: "map (\<lambda>j. if j < i then Some (pred_at hs j xs1) else ?preds ! j) [0..<ml]
          = map (\<lambda>j. if j < Suc i then Some (pred_at hs j xs1) else preds ! j) [0..<ml]"
    using Suc.prems i by (intro fill_step) simp_all
  have e2: "map (\<lambda>j. if j < i then succ_at hs j (b # bs) else ?succs ! j) [0..<ml]
          = map (\<lambda>j. if j < Suc i then succ_at hs j (b # bs) else succs ! j) [0..<ml]"
    using Suc.prems i by (intro fill_step) simp_all
  show ?case
  proof (cases "i < length (nxt (hs ! b))")
    case True
    then have l: "lev hs i (b # bs) = b # lev hs i bs" by (simp add: lev_def)
    have bb: "b < length hs" using level_first_bound [OF sk ct i l] by simp
    have lf': "(if lf = -1 \<and> cmp (hs ! b) (hash k) k = 0 then int i else lf) = int (length (nxt (hs ! b))) - 1"
      using Suc.prems(4) True hb b sb by (auto simp add: cmp_eq_iff)
    show ?thesis
      using q adv l Suc.prems(1-3) bb IH [of "int (length (nxt (hs ! b))) - 1"] e1 e2
      by (simp add: lf' del: findNodeDelete_loop.simps(2)) (simp add: lf')
  next
    case False
    then have l: "lev hs i (b # bs) = lev hs i bs" by (simp add: lev_def)
    have lfc: "(lf = -1 \<and> length (nxt (hs ! b)) \<le> i) \<or> lf = int (length (nxt (hs ! b))) - 1"
      using Suc.prems(4) False by auto
    show ?thesis
    proof (cases "lev hs i bs")
      case Nil
      then show ?thesis using q adv l IH [OF lfc] e1 e2 Suc.prems(1-3) by simp
    next
      case (Cons c cs)
      then have cb: "c < length hs" "c \<in> set (b # bs)"
        using level_first_bound [OF sk ct i] l by simp_all
      have "c \<in> set bs" using Cons lev_subset [of hs i bs] by auto
      then have "key (hs ! c) \<noteq> k" using no by simp
      moreover have "score (hs ! c) = hash (key (hs ! c))"
        using cut_scores [OF sk ct, of c] cb by simp
      ultimately show ?thesis
        using q adv l IH [OF lfc] e1 e2 Suc.prems(1-3) Cons cb by (simp add: cmp_eq_iff)
    qed
  qed
qed

declare succ_at_def [simp del]

lemma cut_lookup:
  assumes "cut hs sc k xs xs1 xs2"
    and "\<forall>a\<in>set xs1. key (hs ! a) \<noteq> k"
    and "\<forall>a\<in>set (tl xs2). key (hs ! a) \<noteq> k"
  shows "lookup hs k xs = (case xs2 of [] \<Rightarrow> None | b # bs \<Rightarrow> if key (hs ! b) = k then Some b else None)"
proof -
  have xs: "xs = xs1 @ xs2" using assms(1) by (simp add: cut_def)
  have 1: "find (\<lambda>a. key (hs ! a) = k) xs1 = None"
    using assms(2) by (simp add: find_None_iff)
  have 2: "find (\<lambda>a. key (hs ! a) = k) (tl xs2) = None"
    using assms(3) by (simp add: find_None_iff)
  have "find P (as @ bs) = (case find P as of None \<Rightarrow> find P bs | Some a \<Rightarrow> Some a)" for P and as bs :: "nat list"
    by (induction as) simp_all
  then have "lookup hs k xs = find (\<lambda>a. key (hs ! a) = k) xs2"
    unfolding lookup_def xs using 1 by simp
  then show ?thesis using 2 by (cases xs2) simp_all
qed

text \<open>What a search for \<open>k\<close> meets, in terms of the list of nodes.\<close>

lemma search_cases [consumes 1, case_names absent present]:
  assumes sk: "skiplist ml hash hs xs"
  obtains (absent) xs1 xs2 where "cut hs (hash k) k xs xs1 xs2" "lookup hs k xs = None"
      "\<forall>a\<in>set xs2. key (hs ! a) \<noteq> k"
  | (present) xs1 b bs where "cut hs (hash k) k xs xs1 (b # bs)" "lookup hs k xs = Some b"
      "key (hs ! b) = k" "\<forall>a\<in>set bs. key (hs ! a) \<noteq> k"
proof -
  obtain xs1 xs2 where ct: "cut hs (hash k) k xs xs1 xs2"
    and n1: "\<forall>a\<in>set xs1. key (hs ! a) \<noteq> k"
    and n2: "\<forall>a\<in>set (tl xs2). key (hs ! a) \<noteq> k"
    using cut_exists [OF sk] by blast
  note lk = cut_lookup [OF ct n1 n2]
  show thesis
  proof (cases xs2)
    case Nil
    then show ?thesis using absent [of xs1 xs2] ct lk by simp
  next
    case (Cons b bs)
    show ?thesis
    proof (cases "key (hs ! b) = k")
      case True
      then show ?thesis using present [of xs1 b bs] ct lk n2 Cons by simp
    next
      case False
      then show ?thesis using absent [of xs1 xs2] ct lk n2 Cons by simp
    qed
  qed
qed

lemma cut_subset: "cut hs sc k xs xs1 xs2 \<Longrightarrow> set xs1 \<subseteq> set xs \<and> set xs2 \<subseteq> set xs"
  by (auto simp add: cut_def)

lemma Load_lookup:
  assumes sk: "skiplist ml hash (nodes s) xs" and hd: "header s = Some 0"
  shows "Load ml hash k s =
     ret (case lookup (nodes s) k xs of
            None \<Rightarrow> (None, False)
          | Some b \<Rightarrow>
              if MGet (flags (nodes s ! b)) {fullyLinked, marked} {fullyLinked}
              then (val (nodes s ! b), True) else (None, False))"
  using sk
proof (cases rule: search_cases [where k = k])
  case (absent xs1 xs2)
  have "pred_at (nodes s) ml xs1 = 0"
    using pred_at_top [OF sk] cut_subset [OF absent(1)] by simp
  then show ?thesis
    using Load_loop_absent [OF sk absent(1,3), of ml] absent(2) hd by (simp add: Load_def)
next
  case (present xs1 b bs)
  have "pred_at (nodes s) ml xs1 = 0"
    using pred_at_top [OF sk] cut_subset [OF present(1)] by simp
  moreover have "length (nxt (nodes s ! b)) \<le> ml"
    using cut_scores [OF sk present(1), of b] by simp
  ultimately show ?thesis
    using Load_loop_present [OF sk present(1,3,4), of ml] present(2) hd by (simp add: Load_def)
qed

lemma findNode_absent:
  assumes sk: "skiplist ml hash (nodes s) xs" and hd: "header s = Some 0"
    and ct: "cut (nodes s) (hash k) k xs xs1 xs2"
    and no: "\<forall>a\<in>set xs2. key (nodes s ! a) \<noteq> k"
    and len: "length preds = ml" "length succs = ml"
  shows "findNode ml hash s k preds succs =
           ret (None, map (\<lambda>j. Some (pred_at (nodes s) j xs1)) [0..<ml],
                map (\<lambda>j. succ_at (nodes s) j xs2) [0..<ml])"
proof -
  have "pred_at (nodes s) ml xs1 = 0"
    using pred_at_top [OF sk] cut_subset [OF ct] by simp
  then show ?thesis
    using findNode_loop_absent [OF sk ct no, of ml preds succs] len hd
    by (simp add: findNode_def cong: map_cong)
qed

lemma findNode_present:
  assumes sk: "skiplist ml hash (nodes s) xs" and hd: "header s = Some 0"
    and ct: "cut (nodes s) (hash k) k xs xs1 (b # bs)"
    and b: "key (nodes s ! b) = k"
    and no: "\<forall>a\<in>set bs. key (nodes s ! a) \<noteq> k"
    and len: "length preds = ml" "length succs = ml"
  shows "\<exists>preds' succs'. findNode ml hash s k preds succs = ret (Some b, preds', succs')"
proof -
  have "pred_at (nodes s) ml xs1 = 0"
    using pred_at_top [OF sk] cut_subset [OF ct] by simp
  moreover have "length (nxt (nodes s ! b)) \<le> ml"
    using cut_scores [OF sk ct, of b] by simp
  ultimately show ?thesis
    using findNode_loop_present [OF sk ct b no, of ml preds succs] len hd
    by (simp add: findNode_def)
qed

lemma findNodeDelete_absent:
  assumes sk: "skiplist ml hash (nodes s) xs" and hd: "header s = Some 0"
    and ct: "cut (nodes s) (hash k) k xs xs1 xs2"
    and no: "\<forall>a\<in>set xs2. key (nodes s ! a) \<noteq> k"
    and len: "length preds = ml" "length succs = ml"
  shows "findNodeDelete ml hash s k preds succs =
           ret (-1, map (\<lambda>j. Some (pred_at (nodes s) j xs1)) [0..<ml],
                map (\<lambda>j. succ_at (nodes s) j xs2) [0..<ml])"
proof -
  have "pred_at (nodes s) ml xs1 = 0"
    using pred_at_top [OF sk] cut_subset [OF ct] by simp
  then show ?thesis
    using findNodeDelete_loop_absent [OF sk ct no, of ml preds succs "-1"] len hd
    by (simp add: findNodeDelete_def cong: map_cong)
qed

lemma findNodeDelete_present:
  assumes sk: "skiplist ml hash (nodes s) xs" and hd: "header s = Some 0"
    and ct: "cut (nodes s) (hash k) k xs xs1 (b # bs)"
    and b: "key (nodes s ! b) = k"
    and no: "\<forall>a\<in>set bs. key (nodes s ! a) \<noteq> k"
    and len: "length preds = ml" "length succs = ml"
  shows "findNodeDelete ml hash s k preds succs =
           ret (int (length (nxt (nodes s ! b))) - 1,
                map (\<lambda>j. Some (pred_at (nodes s) j xs1)) [0..<ml],
                map (\<lambda>j. succ_at (nodes s) j (b # bs)) [0..<ml])"
proof -
  have "pred_at (nodes s) ml xs1 = 0"
    using pred_at_top [OF sk] cut_subset [OF ct] by simp
  moreover have "length (nxt (nodes s ! b)) \<le> ml"
    using cut_scores [OF sk ct, of b] by simp
  ultimately show ?thesis
    using findNodeDelete_loop_present [OF sk ct b no, of ml preds succs "-1"] len hd
    by (simp add: findNodeDelete_def cong: map_cong)
qed

lemma path_bound:
  "path hs i p as q \<Longrightarrow> a \<in> set as \<Longrightarrow> a < length hs \<and> i < length (nxt (hs ! a))"
  by (induction as arbitrary: p) auto

lemma lev_0: "skiplist ml hash hs xs \<Longrightarrow> lev hs 0 xs = xs"
  by (simp add: skiplist_def lev_def)

lemma skiplist_bound:
  assumes sk: "skiplist ml hash hs xs" and a: "a \<in> set (0 # xs)"
  shows "a < length hs"
proof -
  have "0 < ml" using sk by (simp add: skiplist_def)
  then have "path hs 0 (Some 0) (0 # xs) None"
    using skiplist_path [OF sk, of 0] lev_0 [OF sk] by simp
  then show ?thesis using a path_bound by blast
qed

lemma lookup_mem: "lookup hs k xs = Some b \<Longrightarrow> b \<in> set xs \<and> key (hs ! b) = k"
  unfolding lookup_def by (auto simp add: find_Some_iff)

lemma lookup_None: "lookup hs k xs = None \<longleftrightarrow> (\<forall>a\<in>set xs. key (hs ! a) \<noteq> k)"
  unfolding lookup_def by (auto simp add: find_None_iff)

lemma Store_present:
  assumes sk: "skiplist ml hash (nodes s) xs" and hd: "header s = Some 0"
    and lk: "lookup (nodes s) k xs = Some b"
    and um: "\<not> Get (flags (nodes s ! b)) marked"
  shows "Store ml hash k v level s = ret (s\<lparr>nodes := (nodes s)[b := (nodes s ! b)\<lparr>val := v\<rparr>]\<rparr>)"
  using sk
proof (cases rule: search_cases [where k = k])
  case (absent xs1 xs2)
  then show ?thesis using lk by simp
next
  case (present xs1 b' bs)
  then have bb: "b' = b" using lk by simp
  have bl: "b < length (nodes s)"
    using skiplist_bound [OF sk, of b] lookup_mem [OF lk] by simp
  obtain preds' succs' where
    "findNode ml hash s k (replicate ml None) (replicate ml None) = ret (Some b, preds', succs')"
    using findNode_present [OF sk hd present(1,3,4), of "replicate ml None" "replicate ml None"] bb
    by auto
  then show ?thesis
    unfolding Store_def using bl um by (subst Store_loop.simps) simp
qed

lemma not_visible: "Get f marked \<Longrightarrow> \<not> MGet f {fullyLinked, marked} {fullyLinked}"
  by (auto simp add: Get_def MGet_def)

lemma LoadAndDelete_hidden:
  assumes sk: "skiplist ml hash (nodes s) xs" and hd: "header s = Some 0"
    and lk: "lookup (nodes s) k xs = None
             \<or> (\<exists>b. lookup (nodes s) k xs = Some b
                    \<and> \<not> MGet (flags (nodes s ! b)) {fullyLinked, marked} {fullyLinked})"
  shows "LoadAndDelete ml hash k s = ret ((None, False), s)"
  using sk
proof (cases rule: search_cases [where k = k])
  case (absent xs1 xs2)
  show ?thesis
    unfolding LoadAndDelete_def
    using findNodeDelete_absent [OF sk hd absent(1,3), of "replicate ml None" "replicate ml None"]
    by (subst LoadAndDelete_loop.simps) (simp add: can_delete_def)
next
  case (present xs1 b bs)
  then have hid: "\<not> MGet (flags (nodes s ! b)) {fullyLinked, marked} {fullyLinked}"
    using lk by auto
  have bl: "b < length (nodes s)"
    using skiplist_bound [OF sk, of b] lookup_mem [OF present(2)] by simp
  have h: "0 < length (nxt (nodes s ! b))" "length (nxt (nodes s ! b)) \<le> ml"
    using cut_scores [OF sk present(1), of b] by simp_all
  have sb: "succ_at (nodes s) (length (nxt (nodes s ! b)) - 1) (b # bs) = Some b"
    using h by (simp add: succ_at_def lev_def)
  have "can_delete (nodes s) False (int (length (nxt (nodes s ! b))) - 1)
          (map (\<lambda>j. succ_at (nodes s) j (b # bs)) [0..<ml]) = ret False"
  proof -
    have "length (nxt (nodes s ! b)) - Suc 0 < ml" using h by arith
    then show ?thesis
      using h hid bl sb by (simp add: can_delete_def nat_diff_distrib')
  qed
  then show ?thesis
    unfolding LoadAndDelete_def
    using findNodeDelete_present [OF sk hd present(1,3,4), of "replicate ml None" "replicate ml None"]
    by (subst LoadAndDelete_loop.simps) simp
qed

section \<open>Locking, linking and insertion\<close>

lemma length_set_mu [simp]: "length (set_mu A b hs) = length hs"
  by (simp add: set_mu_def)

lemma set_mu_nth [simp]:
  "a < length hs \<Longrightarrow> set_mu A b hs ! a = (if a \<in> A then (hs ! a)\<lparr>mu := b\<rparr> else hs ! a)"
  by (simp add: set_mu_def)

lemma set_mu_empty [simp]: "set_mu {} b hs = hs"
  by (rule nth_equalityI) simp_all

lemma set_mu_update: "a < length hs \<Longrightarrow> hs[a := (hs ! a)\<lparr>mu := b\<rparr>] = set_mu {a} b hs"
  by (rule nth_equalityI) (simp_all add: nth_list_update)

lemma set_mu_set_mu: "set_mu A b (set_mu B b hs) = set_mu (A \<union> B) b hs"
  by (rule nth_equalityI) simp_all

lemma set_mu_id: "\<forall>a\<in>A. a < length hs \<longrightarrow> mu (hs ! a) = b \<Longrightarrow> set_mu A b hs = hs"
  by (rule nth_equalityI) simp_all

lemma set_mu_cancel:
  "\<forall>a\<in>A. a < length hs \<longrightarrow> \<not> mu (hs ! a) \<Longrightarrow> set_mu A False (set_mu A True hs) = hs"
  by (rule nth_equalityI) simp_all

lemma length_relink [simp]: "length (relink f hs) = length hs"
  by (simp add: relink_def)

lemma relink_nth:
  "a < length hs \<Longrightarrow>
   relink f hs ! a =
     (hs ! a)\<lparr>nxt := map (\<lambda>j. case f a j of None \<Rightarrow> nxt (hs ! a) ! j | Some q \<Rightarrow> q)
                          [0..<length (nxt (hs ! a))]\<rparr>"
  by (simp add: relink_def cong: option.case_cong)

lemma relink_fields [simp]:
  "a < length hs \<Longrightarrow> key (relink f hs ! a) = key (hs ! a)"
  "a < length hs \<Longrightarrow> score (relink f hs ! a) = score (hs ! a)"
  "a < length hs \<Longrightarrow> val (relink f hs ! a) = val (hs ! a)"
  "a < length hs \<Longrightarrow> mu (relink f hs ! a) = mu (hs ! a)"
  "a < length hs \<Longrightarrow> flags (relink f hs ! a) = flags (hs ! a)"
  "a < length hs \<Longrightarrow> length (nxt (relink f hs ! a)) = length (nxt (hs ! a))"
  by (simp_all add: relink_nth)

lemma relink_link:
  "a < length hs \<Longrightarrow> j < length (nxt (hs ! a)) \<Longrightarrow>
   nxt (relink f hs ! a) ! j = (case f a j of None \<Rightarrow> nxt (hs ! a) ! j | Some q \<Rightarrow> q)"
  by (simp add: relink_nth cong: option.case_cong)

lemma node_eqI:
  fixes m n :: "'v stringNode"
  assumes "key m = key n" "score m = score n" "val m = val n" "nxt m = nxt n" "mu m = mu n"
    "flags m = flags n"
  shows "m = n"
  using assms by (cases m, cases n) simp

lemma relink_cong:
  assumes "\<And>a j. a < length hs \<Longrightarrow> j < length (nxt (hs ! a)) \<Longrightarrow> f a j = g a j"
  shows "relink f hs = relink g hs"
proof (rule nth_equalityI)
  show "length (relink f hs) = length (relink g hs)" by simp
next
  fix a assume "a < length (relink f hs)"
  then have a: "a < length hs" by simp
  have "nxt (relink f hs ! a) = nxt (relink g hs ! a)"
    using a assms by (intro nth_equalityI) (simp_all add: relink_link)
  then show "relink f hs ! a = relink g hs ! a"
    using a by (intro node_eqI) simp_all
qed

lemma relink_relink:
  "relink g (relink f hs) = relink (\<lambda>a j. case g a j of None \<Rightarrow> f a j | Some q \<Rightarrow> Some q) hs"
proof (rule nth_equalityI)
  show "length (relink g (relink f hs)) =
        length (relink (\<lambda>a j. case g a j of None \<Rightarrow> f a j | Some q \<Rightarrow> Some q) hs)"
    by simp
next
  fix a assume "a < length (relink g (relink f hs))"
  then have a: "a < length hs" by simp
  have "nxt (relink g (relink f hs) ! a) =
        nxt (relink (\<lambda>a j. case g a j of None \<Rightarrow> f a j | Some q \<Rightarrow> Some q) hs ! a)"
    using a by (intro nth_equalityI) (simp_all add: relink_link split: option.splits)
  then show "relink g (relink f hs) ! a =
        relink (\<lambda>a j. case g a j of None \<Rightarrow> f a j | Some q \<Rightarrow> Some q) hs ! a"
    using a by (intro node_eqI) simp_all
qed

lemma relink_none [simp]: "relink (\<lambda>a j. None) hs = hs"
proof (rule nth_equalityI)
  show "length (relink (\<lambda>a j. None) hs) = length hs" by simp
next
  fix a assume "a < length (relink (\<lambda>a j. None) hs)"
  then have a: "a < length hs" by simp
  have "nxt (relink (\<lambda>a j. None) hs ! a) = nxt (hs ! a)"
    using a by (intro nth_equalityI) (simp_all add: relink_link)
  then show "relink (\<lambda>a j. None) hs ! a = hs ! a"
    using a by (intro node_eqI) simp_all
qed

lemma storeNext_relink:
  assumes "a < length hs" "i < length (nxt (hs ! a))"
  shows "storeNext hs (Some a) i q = ret (relink (\<lambda>a' j. if a' = a \<and> j = i then Some q else None) hs)"
proof -
  have "hs[a := (hs ! a)\<lparr>nxt := (nxt (hs ! a))[i := q]\<rparr>]
          = relink (\<lambda>a' j. if a' = a \<and> j = i then Some q else None) hs"
  proof (rule nth_equalityI)
    show "length (hs[a := (hs ! a)\<lparr>nxt := (nxt (hs ! a))[i := q]\<rparr>])
            = length (relink (\<lambda>a' j. if a' = a \<and> j = i then Some q else None) hs)"
      by simp
  next
    fix b assume "b < length (hs[a := (hs ! a)\<lparr>nxt := (nxt (hs ! a))[i := q]\<rparr>])"
    then have b: "b < length hs" by simp
    show "hs[a := (hs ! a)\<lparr>nxt := (nxt (hs ! a))[i := q]\<rparr>] ! b
            = relink (\<lambda>a' j. if a' = a \<and> j = i then Some q else None) hs ! b"
    proof (cases "b = a")
      case True
      have "(nxt (hs ! a))[i := q] = nxt (relink (\<lambda>a' j. if a' = a \<and> j = i then Some q else None) hs ! a)"
        using assms by (intro nth_equalityI) (simp_all add: relink_link nth_list_update)
      then show ?thesis
        using True assms by (intro node_eqI) simp_all
    next
      case False
      have "nxt (hs ! b) = nxt (relink (\<lambda>a' j. if a' = a \<and> j = i then Some q else None) hs ! b)"
        using b False by (intro nth_equalityI) (simp_all add: relink_link)
      then show ?thesis
        using False b by (intro node_eqI) simp_all
    qed
  qed
  then show ?thesis using assms by (simp add: storeNext_def)
qed

lemma Lock_set_mu:
  "a < length hs \<Longrightarrow> \<not> mu (hs ! a) \<Longrightarrow> Lock hs (Some a) = ret (set_mu {a} True hs)"
  by (simp add: Lock_def set_mu_update)

lemma Unlock_set_mu:
  "a < length hs \<Longrightarrow> mu (hs ! a) \<Longrightarrow> Unlock hs (Some a) = ret (set_mu {a} False hs)"
  by (simp add: Unlock_def set_mu_update)

lemma convex_image:
  assumes cv: "convex p n" and h: "h < n" and e: "p h = p (n - 1)"
  shows "p ` {..<Suc h} = p ` {..<n}"
proof
  show "p ` {..<Suc h} \<subseteq> p ` {..<n}" using h by auto
next
  show "p ` {..<n} \<subseteq> p ` {..<Suc h}"
  proof
    fix a assume "a \<in> p ` {..<n}"
    then obtain l where l: "l < n" "a = p l" by auto
    show "a \<in> p ` {..<Suc h}"
    proof (cases "l \<le> h")
      case True
      then show ?thesis using l by auto
    next
      case False
      then have "h \<le> l \<and> l \<le> n - 1 \<and> n - 1 < n \<and> p h = p (n - 1)"
        using l h e by auto
      then have "p l = p h" using cv unfolding convex_def by blast
      then show ?thesis using l by auto
    qed
  qed
qed

lemma convex_fresh:
  assumes cv: "convex p n" and j: "j < n" "0 < j" and ne: "p j \<noteq> p (j - 1)"
  shows "p j \<notin> p ` {..<j}"
proof
  assume "p j \<in> p ` {..<j}"
  then obtain l where l: "l < j" "p l = p j" by auto
  then have "l \<le> j - 1 \<and> j - 1 \<le> j \<and> j < n \<and> p l = p j" using j by auto
  then have "p (j - 1) = p l" using cv unfolding convex_def by blast
  then show False using l ne by simp
qed

lemma convex_mono: "convex p n \<Longrightarrow> m \<le> n \<Longrightarrow> convex p m"
  unfolding convex_def by (meson less_le_trans)

lemma lock_insert_ok:
  fixes p :: "nat \<Rightarrow> nat" and q :: "nat \<Rightarrow> ptr"
  assumes cv: "convex p level"
    and pr: "\<forall>j<level. preds ! j = Some (p j) \<and> succs ! j = q j"
    and len: "level \<le> length preds" "level \<le> length succs"
    and ok: "\<forall>j<level. p j < length hs0 \<and> \<not> mu (hs0 ! p j) \<and> \<not> Get (flags (hs0 ! p j)) marked
                \<and> j < length (nxt (hs0 ! p j)) \<and> nxt (hs0 ! p j) ! j = q j"
    and oks: "\<forall>j<level. \<forall>c. q j = Some c \<longrightarrow> c < length hs0 \<and> \<not> Get (flags (hs0 ! c)) marked"
  shows "layer \<le> level \<Longrightarrow>
     (layer = 0 \<and> hl = -1 \<and> pp = None)
       \<or> (0 < layer \<and> pp = Some (p (layer - 1)) \<and> 0 \<le> hl \<and> nat hl < layer \<and> p (nat hl) = p (layer - 1)) \<Longrightarrow>
     \<exists>hl'. lock_insert (set_mu (p ` {..<layer}) True hs0) preds succs level layer hl pp
              = ret (set_mu (p ` {..<level}) True hs0, hl', True)
          \<and> ((level = 0 \<and> hl' = -1)
              \<or> (0 < level \<and> 0 \<le> hl' \<and> nat hl' < level \<and> p (nat hl') = p (level - 1)))"
proof (induction "level - layer" arbitrary: layer hl pp)
  case 0
  then have "layer = level" by simp
  then show ?case
    using 0 by (subst lock_insert.simps) auto
next
  case (Suc n)
  then have ll: "layer < level" by simp
  define hs where "hs = set_mu (p ` {..<layer}) True hs0"
  define hsN where "hsN = set_mu (p ` {..<Suc layer}) True hs0"
  define hlN where "hlN = (if Some (p layer) \<noteq> pp then int layer else hl)"
  have pl: "preds ! layer = Some (p layer)" "succs ! layer = q layer"
    using pr ll by simp_all
  have okl: "p layer < length hs0" "\<not> mu (hs0 ! p layer)" "\<not> Get (flags (hs0 ! p layer)) marked"
    "layer < length (nxt (hs0 ! p layer))" "nxt (hs0 ! p layer) ! layer = q layer"
    using ok ll by simp_all
  have step1: "(if preds ! layer \<noteq> pp
                then bnd (Lock hs (preds ! layer)) (\<lambda>hs'. ret (hs', int layer, preds ! layer))
                else ret (hs, hl, pp)) = ret (hsN, hlN, Some (p layer))"
  proof (cases "Some (p layer) \<noteq> pp")
    case True
    have fresh: "p layer \<notin> p ` {..<layer}"
    proof (cases "layer = 0")
      case True
      then show ?thesis by simp
    next
      case False
      then have "pp = Some (p (layer - 1))" using Suc.prems by simp
      then have "p layer \<noteq> p (layer - 1)" using True by auto
      then show ?thesis using convex_fresh [OF cv ll] False by simp
    qed
    then have "\<not> mu (hs ! p layer)" using okl by (simp add: hs_def)
    then have "Lock hs (Some (p layer)) = ret (set_mu {p layer} True hs)"
      using okl by (intro Lock_set_mu) (simp_all add: hs_def)
    moreover have "set_mu {p layer} True hs = hsN"
      by (simp add: hs_def hsN_def set_mu_set_mu lessThan_Suc)
    ultimately show ?thesis using True pl by (simp add: hlN_def)
  next
    case False
    then have "pp = Some (p layer)" by simp
    then have "layer \<noteq> 0" "p (layer - 1) = p layer" using Suc.prems by auto
    then have "p layer \<in> p ` {..<layer}"
      by (metis diff_less imageI lessThan_iff less_numeral_extra(1) not_gr_zero)
    then have "insert (p layer) (p ` {..<layer}) = p ` {..<layer}" by auto
    then have "hsN = hs" by (simp add: hs_def hsN_def lessThan_Suc)
    then show ?thesis using False pl by (simp add: hlN_def)
  qed
  have step2: "deref hsN (preds ! layer) = ret (hsN ! p layer)"
    using okl pl by (simp add: hsN_def)
  have fl: "flags (hsN ! a) = flags (hs0 ! a)" "nxt (hsN ! a) = nxt (hs0 ! a)" if "a < length hs0" for a
    using that by (simp_all add: hsN_def)
  have s3a: "(case succs ! layer of None \<Rightarrow> ret True
              | Some b \<Rightarrow> bnd (deref hsN (succs ! layer)) (\<lambda>sn. ret (\<not> Get (flags sn) marked)))
             = ret True"
  proof (cases "q layer")
    case None
    then show ?thesis using pl by simp
  next
    case (Some c)
    then have "c < length hs0" "\<not> Get (flags (hs0 ! c)) marked" using oks ll by auto
    then show ?thesis using pl Some fl [of c] by (simp add: hsN_def)
  qed
  have s3b: "loadNext hsN (preds ! layer) layer = ret (succs ! layer)"
    using okl pl fl [of "p layer"] by (simp add: hsN_def)
  have inv': "(Suc layer = 0 \<and> hlN = -1 \<and> Some (p layer) = None)
       \<or> (0 < Suc layer \<and> Some (p layer) = Some (p (Suc layer - 1)) \<and> 0 \<le> hlN
            \<and> nat hlN < Suc layer \<and> p (nat hlN) = p (Suc layer - 1))"
  proof (cases "Some (p layer) \<noteq> pp")
    case True
    then show ?thesis by (simp add: hlN_def)
  next
    case False
    then have "pp = Some (p layer)" by simp
    then show ?thesis using Suc.prems by (auto simp add: hlN_def)
  qed
  have "\<exists>hl'. lock_insert (set_mu (p ` {..<Suc layer}) True hs0) preds succs level (Suc layer) hlN (Some (p layer))
              = ret (set_mu (p ` {..<level}) True hs0, hl', True)
          \<and> ((level = 0 \<and> hl' = -1)
              \<or> (0 < level \<and> 0 \<le> hl' \<and> nat hl' < level \<and> p (nat hl') = p (level - 1)))"
    using Suc.hyps(2) ll inv' by (intro Suc.hyps(1)) simp_all
  then obtain hl' where
    rec: "lock_insert hsN preds succs level (Suc layer) hlN (Some (p layer))
              = ret (set_mu (p ` {..<level}) True hs0, hl', True)"
    and fin: "(level = 0 \<and> hl' = -1)
              \<or> (0 < level \<and> 0 \<le> hl' \<and> nat hl' < level \<and> p (nat hl') = p (level - 1))"
    unfolding hsN_def by blast
  have "lock_insert hs preds succs level layer hl pp = ret (set_mu (p ` {..<level}) True hs0, hl', True)"
    apply (subst lock_insert.simps)
    apply (simp only: step1 bnd_ret split)
    using ll len okl(3) fl [of "p layer"] okl(1)
    apply (simp add: step2 s3a s3b rec del: set_mu_nth)
    done
  then show ?case using fin unfolding hs_def by blast
qed

lemma unlock_loop_ok:
  fixes p :: "nat \<Rightarrow> nat"
  assumes cv: "convex p N"
    and pr: "\<forall>j<N. preds ! j = Some (p j) \<and> p j < M"
    and len: "N \<le> length preds"
  shows "n \<le> N \<Longrightarrow> length hs = M \<Longrightarrow>
     pp = None \<or> (n < N \<and> pp = Some (p n) \<and> \<not> mu (hs ! p n)) \<Longrightarrow>
     \<forall>j<n. Some (p j) \<noteq> pp \<longrightarrow> mu (hs ! p j) \<Longrightarrow>
     unlock_loop hs preds n pp = ret (set_mu (p ` {..<n}) False hs)"
proof (induction n arbitrary: hs pp)
  case 0
  then show ?case by simp
next
  case (Suc i)
  have i: "i < N" using Suc.prems by simp
  have pi: "preds ! i = Some (p i)" "p i < length hs" "i < length preds"
    using pr i len Suc.prems by simp_all
  show ?case
  proof (cases "Some (p i) \<noteq> pp")
    case True
    then have locked: "mu (hs ! p i)" using Suc.prems(4) by simp
    let ?hs = "set_mu {p i} False hs"
    have un: "Unlock hs (Some (p i)) = ret ?hs"
      using pi locked by (intro Unlock_set_mu)
    have inv: "\<forall>j<i. Some (p j) \<noteq> Some (p i) \<longrightarrow> mu (?hs ! p j)"
    proof (intro allI impI)
      fix j assume j: "j < i" and ne: "Some (p j) \<noteq> Some (p i)"
      have "Some (p j) \<noteq> pp"
      proof
        assume e: "Some (p j) = pp"
        then have "Suc i < N" "p j = p (Suc i)" using Suc.prems(3) by auto
        then have "j \<le> i \<and> i \<le> Suc i \<and> Suc i < N \<and> p j = p (Suc i)" using j by simp
        then have "p i = p j" using cv unfolding convex_def by blast
        then show False using ne by simp
      qed
      then have "mu (hs ! p j)" using Suc.prems(4) j by simp
      moreover have "p j < length hs" using pr j i Suc.prems(2) by simp
      ultimately show "mu (?hs ! p j)" using ne by simp
    qed
    have "unlock_loop ?hs preds i (Some (p i)) = ret (set_mu (p ` {..<i}) False ?hs)"
      using Suc.prems(1,2) i pi inv by (intro Suc.IH) simp_all
    moreover have "set_mu (p ` {..<i}) False ?hs = set_mu (p ` {..<Suc i}) False hs"
      by (simp add: set_mu_set_mu lessThan_Suc Un_commute)
    ultimately show ?thesis
      using True pi un by simp
  next
    case False
    then have pp: "pp = Some (p i)" by simp
    then have free: "\<not> mu (hs ! p i)" using Suc.prems(3) by auto
    have "unlock_loop hs preds i pp = ret (set_mu (p ` {..<i}) False hs)"
      using Suc.prems i pp free by (intro Suc.IH) simp_all
    moreover have "set_mu {p i} False hs = hs"
      using free by (intro set_mu_id) simp
    then have "set_mu (p ` {..<i}) False hs = set_mu (p ` {..<Suc i}) False hs"
      by (metis set_mu_set_mu lessThan_Suc image_insert insert_is_Un Un_commute)
    ultimately show ?thesis
      using False pi by simp
  qed
qed

lemma unlockString_ok:
  fixes p :: "nat \<Rightarrow> nat"
  assumes cv: "convex p level"
    and pr: "\<forall>j<level. preds ! j = Some (p j) \<and> p j < length hs"
    and len: "level \<le> length preds"
    and hl: "(level = 0 \<and> hl = -1) \<or> (0 < level \<and> 0 \<le> hl \<and> nat hl < level \<and> p (nat hl) = p (level - 1))"
    and locked: "\<forall>j<level. mu (hs ! p j)"
  shows "unlockString hs preds hl = ret (set_mu (p ` {..<level}) False hs)"
proof (cases "level = 0")
  case True
  then show ?thesis using hl by (simp add: unlockString_def)
next
  case False
  then have h: "0 \<le> hl" "nat hl < level" "p (nat hl) = p (level - 1)" using hl by auto
  have n: "nat (hl + 1) = Suc (nat hl)" using h by simp
  have "unlock_loop hs preds (Suc (nat hl)) None = ret (set_mu (p ` {..<Suc (nat hl)}) False hs)"
    using cv pr len h locked
    by (intro unlock_loop_ok [where N = level and M = "length hs"]) simp_all
  moreover have "p ` {..<Suc (nat hl)} = p ` {..<level}"
    using convex_image [OF cv h(2,3)] .
  ultimately show ?thesis by (simp add: unlockString_def n)
qed

text \<open>What the linking loop does from layer \<open>layer\<close> on.\<close>

lemma link_insert_ok:
  fixes p :: "nat \<Rightarrow> nat" and q :: "nat \<Rightarrow> ptr"
  assumes pr: "\<forall>j<level. preds ! j = Some (p j) \<and> succs ! j = q j \<and> p j \<noteq> N"
    and len: "level \<le> length preds" "level \<le> length succs"
  shows "layer \<le> level \<Longrightarrow> N < length hs \<Longrightarrow> length (nxt (hs ! N)) = level \<Longrightarrow>
     \<forall>j<level. p j < length hs \<and> j < length (nxt (hs ! p j)) \<Longrightarrow>
     link_insert hs preds succs (Some N) level layer =
       ret (relink (\<lambda>a j. if layer \<le> j \<and> j < level \<and> a = p j then Some (Some N)
                          else if a = N \<and> layer \<le> j \<and> j < level then Some (q j) else None) hs)"
proof (induction "level - layer" arbitrary: layer hs)
  case 0
  then have e: "layer = level" by simp
  have "relink (\<lambda>a j. if layer \<le> j \<and> j < level \<and> a = p j then Some (Some N)
                          else if a = N \<and> layer \<le> j \<and> j < level then Some (q j) else None) hs
        = relink (\<lambda>a j. None) hs"
    using e by (intro relink_cong) simp
  then show ?case
    using e by (subst link_insert.simps) simp
next
  case (Suc n)
  then have ll: "layer < level" by simp
  have pl: "preds ! layer = Some (p layer)" "succs ! layer = q layer" "p layer \<noteq> N"
    using pr ll by simp_all
  let ?f1 = "\<lambda>a' j. if a' = N \<and> j = layer then Some (q layer) else None"
  let ?f2 = "\<lambda>a' j. if a' = p layer \<and> j = layer then Some (Some N) else None"
  let ?hs2 = "relink ?f2 (relink ?f1 hs)"
  have s1: "storeNext hs (Some N) layer (q layer) = ret (relink ?f1 hs)"
    using Suc.prems ll by (intro storeNext_relink) simp_all
  have s2: "storeNext (relink ?f1 hs) (Some (p layer)) layer (Some N) = ret ?hs2"
    using Suc.prems ll by (intro storeNext_relink) simp_all
  have rec: "link_insert ?hs2 preds succs (Some N) level (Suc layer) =
       ret (relink (\<lambda>a j. if Suc layer \<le> j \<and> j < level \<and> a = p j then Some (Some N)
                          else if a = N \<and> Suc layer \<le> j \<and> j < level then Some (q j) else None) ?hs2)"
    using Suc.hyps(2) ll Suc.prems by (intro Suc.hyps(1)) simp_all
  have comb: "relink (\<lambda>a j. if Suc layer \<le> j \<and> j < level \<and> a = p j then Some (Some N)
                          else if a = N \<and> Suc layer \<le> j \<and> j < level then Some (q j) else None) ?hs2
      = relink (\<lambda>a j. if layer \<le> j \<and> j < level \<and> a = p j then Some (Some N)
                          else if a = N \<and> layer \<le> j \<and> j < level then Some (q j) else None) hs"
    unfolding relink_relink
  proof (intro relink_cong)
    fix a j
    have "Suc layer \<le> j \<longleftrightarrow> layer \<le> j \<and> j \<noteq> layer" by auto
    then show "(case if Suc layer \<le> j \<and> j < level \<and> a = p j then Some (Some N)
                else if a = N \<and> Suc layer \<le> j \<and> j < level then Some (q j) else None of
            None \<Rightarrow> (case ?f2 a j of None \<Rightarrow> ?f1 a j | Some q \<Rightarrow> Some q)
            | Some q \<Rightarrow> Some q) =
           (if layer \<le> j \<and> j < level \<and> a = p j then Some (Some N)
            else if a = N \<and> layer \<le> j \<and> j < level then Some (q j) else None)"
      using pl ll by (cases "j = layer") auto
  qed
  show ?case
    apply (subst link_insert.simps)
    using ll len pl(1,2) apply (simp add: s1 s2 rec comb)
    done
qed

lemma cut_distinct:
  assumes sk: "skiplist ml hash hs xs" and ct: "cut hs sc k xs xs1 xs2"
  shows "distinct (0 # xs1 @ xs2)" "\<forall>a\<in>set (0 # xs1 @ xs2). a < length hs"
proof -
  have xs: "xs = xs1 @ xs2" using ct by (simp add: cut_def)
  show "distinct (0 # xs1 @ xs2)" using sk xs by (simp add: skiplist_def)
  show "\<forall>a\<in>set (0 # xs1 @ xs2). a < length hs"
    using skiplist_bound [OF sk] xs by simp
qed

lemma pred_at_mem: "pred_at hs i xs1 \<in> set (0 # lev hs i xs1)"
  unfolding pred_at_def by (rule last_in_set) simp

lemma pred_at_mem': "pred_at hs i xs1 \<in> set (0 # xs1)"
  using pred_at_mem [of hs i xs1] lev_subset [of hs i xs1] by auto

lemma succ_at_mem: "succ_at hs i xs2 = Some c \<Longrightarrow> c \<in> set xs2 \<and> i < length (nxt (hs ! c))"
proof -
  assume "succ_at hs i xs2 = Some c"
  then obtain cs where "lev hs i xs2 = c # cs"
    unfolding succ_at_def first_of_def by (cases "lev hs i xs2") simp_all
  then have "c \<in> set (lev hs i xs2)" by simp
  then show ?thesis by (simp add: lev_mem)
qed

lemma level_paths:
  assumes sk: "skiplist ml hash hs xs" and ct: "cut hs sc k xs xs1 xs2" and i: "i < ml"
  shows "path hs i (Some 0) (butlast (0 # lev hs i xs1)) (Some (pred_at hs i xs1))"
    and "pred_at hs i xs1 < length hs"
    and "i < length (nxt (hs ! pred_at hs i xs1))"
    and "nxt (hs ! pred_at hs i xs1) ! i = succ_at hs i xs2"
    and "path hs i (succ_at hs i xs2) (lev hs i xs2) None"
proof -
  let ?A = "0 # lev hs i xs1"
  have A: "?A = butlast ?A @ [pred_at hs i xs1]"
    unfolding pred_at_def by (rule append_butlast_last_id [symmetric]) simp
  have "path hs i (Some 0) (?A @ lev hs i xs2) None"
    using skiplist_path [OF sk i] ct by (simp add: cut_def)
  then obtain r where r1: "path hs i (Some 0) ?A r" and r2: "path hs i r (lev hs i xs2) None"
    unfolding path_append by blast
  have r: "r = succ_at hs i xs2"
    using path_first [OF r2] by (simp add: succ_at_def)
  have "path hs i (Some 0) (butlast ?A @ [pred_at hs i xs1]) r"
    by (subst A [symmetric]) (rule r1)
  then obtain r' where u: "path hs i (Some 0) (butlast ?A) r'"
    and c: "path hs i r' [pred_at hs i xs1] r"
    unfolding path_append by blast
  from c have "r' = Some (pred_at hs i xs1)" by simp
  then show "path hs i (Some 0) (butlast (0 # lev hs i xs1)) (Some (pred_at hs i xs1))"
    using u by simp
  show "pred_at hs i xs1 < length hs" "i < length (nxt (hs ! pred_at hs i xs1))"
    "nxt (hs ! pred_at hs i xs1) ! i = succ_at hs i xs2"
    using c r by simp_all
  show "path hs i (succ_at hs i xs2) (lev hs i xs2) None"
    using r2 r by simp
qed

lemma last_filter_keep: "xs \<noteq> [] \<Longrightarrow> P (last xs) \<Longrightarrow> last (filter P xs) = last xs"
  by (induction xs) (auto split: if_splits simp add: filter_empty_conv)

lemma lev_lev: "i \<le> l \<Longrightarrow> lev hs l xs = filter (\<lambda>a. l < length (nxt (hs ! a))) (lev hs i xs)"
  unfolding lev_def filter_filter by (rule filter_cong) auto

lemma pred_at_convex:
  assumes z: "0 \<notin> set xs1"
  shows "convex (\<lambda>i. pred_at hs i xs1) n"
  unfolding convex_def
proof (intro allI impI)
  fix i l j
  assume h: "i \<le> l \<and> l \<le> j \<and> j < n \<and> pred_at hs i xs1 = pred_at hs j xs1"
  then have il: "i \<le> l" and lj: "l \<le> j" and e: "pred_at hs i xs1 = pred_at hs j xs1" by simp_all
  have nz: "pred_at hs m xs1 \<noteq> 0" if "lev hs m xs1 \<noteq> []" for m
  proof -
    have "pred_at hs m xs1 = last (lev hs m xs1)" using that by (simp add: pred_at_def)
    then have "pred_at hs m xs1 \<in> set xs1"
      using that lev_subset [of hs m xs1] last_in_set [OF that] by auto
    then show ?thesis using z by (cases "pred_at hs m xs1 = 0") simp_all
  qed
  show "pred_at hs l xs1 = pred_at hs i xs1"
  proof (cases "lev hs j xs1 = []")
    case True
    then have "pred_at hs j xs1 = 0" by (simp add: pred_at_def)
    then have "lev hs i xs1 = []" using nz [of i] e by auto
    then have "lev hs l xs1 = []" using lev_lev [OF il, of hs xs1] by simp
    then show ?thesis using \<open>lev hs i xs1 = []\<close> by (simp add: pred_at_def)
  next
    case False
    define c where "c = last (lev hs j xs1)"
    have cj: "pred_at hs j xs1 = c" using False by (simp add: pred_at_def c_def)
    have "c \<in> set (lev hs j xs1)" unfolding c_def using False by (rule last_in_set)
    then have hc: "j < length (nxt (hs ! c))" by (simp add: lev_mem)
    have "c \<noteq> 0" using nz [OF False] cj by simp
    have ine: "lev hs i xs1 \<noteq> []"
    proof
      assume "lev hs i xs1 = []"
      then have "pred_at hs i xs1 = 0" by (simp add: pred_at_def)
      then show False using e cj \<open>c \<noteq> 0\<close> by simp
    qed
    then have ci: "last (lev hs i xs1) = c" using e cj by (simp add: pred_at_def)
    have "last (lev hs l xs1) = c \<and> lev hs l xs1 \<noteq> []"
    proof -
      have keep: "l < length (nxt (hs ! last (lev hs i xs1)))" using ci hc lj by simp
      have "last (filter (\<lambda>a. l < length (nxt (hs ! a))) (lev hs i xs1)) = last (lev hs i xs1)"
        using ine keep by (rule last_filter_keep)
      moreover have "last (lev hs i xs1) \<in> set (filter (\<lambda>a. l < length (nxt (hs ! a))) (lev hs i xs1))"
        using ine keep by simp
      then have "filter (\<lambda>a. l < length (nxt (hs ! a))) (lev hs i xs1) \<noteq> []"
        by (metis empty_iff empty_set)
      ultimately have "last (lev hs l xs1) = last (lev hs i xs1)" "lev hs l xs1 \<noteq> []"
        using lev_lev [OF il, of hs xs1] by simp_all
      then show ?thesis using ci by simp
    qed
    then show ?thesis using e cj by (simp add: pred_at_def)
  qed
qed

lemma cut_keys:
  assumes sk: "skiplist ml hash hs xs" and ct: "cut hs (hash k) k xs xs1 xs2"
    and no: "\<forall>a\<in>set xs2. key (hs ! a) \<noteq> k"
  shows "\<forall>a\<in>set xs1. before hash (key (hs ! a)) k" "\<forall>a\<in>set xs2. before hash k (key (hs ! a))"
proof -
  show "\<forall>a\<in>set xs1. before hash (key (hs ! a)) k"
  proof
    fix a assume a: "a \<in> set xs1"
    then have "cmp (hs ! a) (hash k) k < 0" using ct by (simp add: cut_def)
    then show "before hash (key (hs ! a)) k"
      using cut_scores [OF sk ct, of a] a by (simp add: cmp_less_iff)
  qed
  show "\<forall>a\<in>set xs2. before hash k (key (hs ! a))"
  proof
    fix a assume a: "a \<in> set xs2"
    then have "\<not> cmp (hs ! a) (hash k) k < 0" using ct by (simp add: cut_def)
    then have "\<not> before hash (key (hs ! a)) k"
      using cut_scores [OF sk ct, of a] a by (simp add: cmp_less_iff)
    moreover have "key (hs ! a) \<noteq> k" using no a by simp
    ultimately show "before hash k (key (hs ! a))"
      using before_total [of hash "key (hs ! a)" k] by auto
  qed
qed

lemma skiplist_insert:
  assumes sk: "skiplist ml hash hs xs" and ct: "cut hs (hash k) k xs xs1 xs2"
    and no: "\<forall>a\<in>set xs2. key (hs ! a) \<noteq> k"
    and lv: "0 < level" "level \<le> ml"
  shows "skiplist ml hash (inserted hash k v level hs xs1 xs2) (xs1 @ length hs # xs2)"
proof -
  define N where "N = length hs"
  define F where "F = (\<lambda>a j. if j < level \<and> a = pred_at hs j xs1 then Some (Some N) else None)"
  define nn :: "'a stringNode" where "nn = \<lparr> key = k, score = hash k, val = v,
      nxt = map (\<lambda>j. succ_at hs j xs2) [0..<level], mu = False, flags = {fullyLinked} \<rparr>"
  define hs' where "hs' = inserted hash k v level hs xs1 xs2"
  have hs': "hs' = relink F hs @ [nn]"
    unfolding hs'_def inserted_def F_def nn_def N_def by simp
  have xs: "xs = xs1 @ xs2" using ct by (simp add: cut_def)
  have bound: "\<forall>a\<in>set (0 # xs1 @ xs2). a < N" and dist: "distinct (0 # xs1 @ xs2)"
    using cut_distinct [OF sk ct] by (simp_all add: N_def)
  have old: "key (hs' ! a) = key (hs ! a)" "score (hs' ! a) = score (hs ! a)"
    "length (nxt (hs' ! a)) = length (nxt (hs ! a))" if "a < N" for a
    using that by (simp_all add: hs' nth_append N_def)
  have oldlink: "nxt (hs' ! a) ! j = (case F a j of None \<Rightarrow> nxt (hs ! a) ! j | Some q \<Rightarrow> q)"
    if "a < N" "j < length (nxt (hs ! a))" for a j
    using that by (simp add: hs' nth_append N_def relink_link)
  have new: "hs' ! N = nn" "length hs' = Suc N"
    by (simp_all add: hs' nth_append N_def)
  have Nnew: "N \<notin> set (0 # xs1 @ xs2)" using bound by auto
  have levs: "lev hs' i ys = lev hs i ys" if "set ys \<subseteq> set (0 # xs1 @ xs2)" for i ys
    unfolding lev_def using that bound old(3) by (intro filter_cong refl) auto
  have levN: "lev hs' i (xs1 @ N # xs2) = lev hs i xs1 @ (if i < level then [N] else []) @ lev hs i xs2" for i
  proof -
    have "lev hs' i [N] = (if i < level then [N] else [])"
      by (simp add: lev_def new nn_def)
    moreover have "lev hs' i (xs1 @ N # xs2) = lev hs' i xs1 @ lev hs' i [N] @ lev hs' i xs2"
      by (simp add: lev_def)
    moreover have "lev hs' i xs1 = lev hs i xs1"
      by (rule levs) auto
    moreover have "lev hs' i xs2 = lev hs i xs2"
      by (rule levs) auto
    ultimately show ?thesis by simp
  qed
  have keys: "\<forall>a\<in>set xs1. before hash (key (hs ! a)) k" "\<forall>a\<in>set xs2. before hash k (key (hs ! a))"
    using cut_keys [OF sk ct no] by simp_all
  have srt0: "sorted_wrt (\<lambda>a b. before hash (key (hs ! a)) (key (hs ! b))) (xs1 @ xs2)"
    using sk xs by (simp add: skiplist_def)
  have p1: "0 < ml" using sk by (simp add: skiplist_def)
  have p2: "0 \<notin> set (xs1 @ N # xs2)" using dist bound by auto
  have p3: "distinct (xs1 @ N # xs2)" using dist Nnew by auto
  have p4: "\<forall>a\<in>set (xs1 @ N # xs2). 0 < length (nxt (hs' ! a)) \<and> length (nxt (hs' ! a)) \<le> ml
                      \<and> score (hs' ! a) = hash (key (hs' ! a))"
  proof
    fix a assume a: "a \<in> set (xs1 @ N # xs2)"
    show "0 < length (nxt (hs' ! a)) \<and> length (nxt (hs' ! a)) \<le> ml
                      \<and> score (hs' ! a) = hash (key (hs' ! a))"
    proof (cases "a = N")
      case True
      then show ?thesis using lv by (simp add: new nn_def)
    next
      case False
      then have "a \<in> set xs" using a xs by auto
      moreover have "a < N" using False a bound by auto
      ultimately show ?thesis using sk old [of a] by (simp add: skiplist_def)
    qed
  qed
  have p5: "sorted_wrt (\<lambda>a b. before hash (key (hs' ! a)) (key (hs' ! b))) (xs1 @ N # xs2)"
  proof -
    have k': "key (hs' ! a) = key (hs ! a)" if "a \<in> set (xs1 @ xs2)" for a
      using that bound old(1) [of a] by auto
    have kN: "key (hs' ! N) = k" by (simp add: new nn_def)
    have "sorted_wrt (\<lambda>a b. before hash (key (hs' ! a)) (key (hs' ! b))) (xs1 @ xs2)"
    proof (rule sorted_wrt_mono_rel [OF _ srt0])
      fix a b assume "a \<in> set (xs1 @ xs2)" "b \<in> set (xs1 @ xs2)"
        "before hash (key (hs ! a)) (key (hs ! b))"
      then show "before hash (key (hs' ! a)) (key (hs' ! b))"
        using k' [of a] k' [of b] by simp
    qed
    then have "sorted_wrt (\<lambda>a b. before hash (key (hs' ! a)) (key (hs' ! b))) xs1"
      "sorted_wrt (\<lambda>a b. before hash (key (hs' ! a)) (key (hs' ! b))) xs2"
      "\<forall>a\<in>set xs1. \<forall>b\<in>set xs2. before hash (key (hs' ! a)) (key (hs' ! b))"
      by (simp_all add: sorted_wrt_append)
    moreover have "\<forall>a\<in>set xs1. before hash (key (hs' ! a)) (key (hs' ! N))"
      using keys(1) k' kN by simp
    moreover have "\<forall>a\<in>set xs2. before hash (key (hs' ! N)) (key (hs' ! a))"
      using keys(2) k' kN by simp
    ultimately show ?thesis
      by (simp add: sorted_wrt_append)
  qed
  have p6: "length (nxt (hs' ! 0)) = ml"
    using old(3) [of 0] bound sk by (simp add: skiplist_def)
  have p7: "\<forall>i\<in>{..<ml}. path hs' i (Some 0) (0 # lev hs' i (xs1 @ N # xs2)) None"
  proof
    fix i assume "i \<in> {..<ml}"
    then have i: "i < ml" by simp
    note lp = level_paths [OF sk ct i]
    define c where "c = pred_at hs i xs1"
    define us where "us = butlast (0 # lev hs i xs1)"
    have A: "0 # lev hs i xs1 = us @ [c]"
      unfolding us_def c_def pred_at_def by (rule append_butlast_last_id [symmetric]) simp
    have dA: "distinct (us @ [c])"
    proof -
      have "distinct (0 # lev hs i xs1)" using dist by (simp add: lev_def)
      then show ?thesis using A by simp
    qed
    have subA: "set (us @ [c]) \<subseteq> set (0 # xs1)"
    proof -
      have "set (0 # lev hs i xs1) \<subseteq> set (0 # xs1)" using lev_subset [of hs i xs1] by auto
      then show ?thesis using A by simp
    qed
    have sub2: "set (lev hs i xs2) \<subseteq> set xs2" by (rule lev_subset)
    have notpred: "a \<noteq> pred_at hs j xs1" if "a \<in> set xs2" for a j
    proof
      assume "a = pred_at hs j xs1"
      then have "a \<in> set (0 # xs1)" using pred_at_mem' [of hs j xs1] by simp
      then show False using that dist by auto
    qed
    show "path hs' i (Some 0) (0 # lev hs' i (xs1 @ N # xs2)) None"
    proof (cases "i < level")
      case False
      have same: "length (nxt (hs' ! a)) = length (nxt (hs ! a)) \<and> nxt (hs' ! a) ! i = nxt (hs ! a) ! i"
        if "a < length hs" "a \<in> set (0 # lev hs i (xs1 @ xs2))" for a
      proof -
        have "i < length (nxt (hs ! a))"
          using that(2) i sk by (auto simp add: lev_mem skiplist_def)
        then show ?thesis using that False oldlink [of a i] old(3) [of a] by (simp add: N_def F_def)
      qed
      have "path hs' i (Some 0) (0 # lev hs i (xs1 @ xs2)) None"
      proof (rule path_frame [where hs = hs])
        show "path hs i (Some 0) (0 # lev hs i (xs1 @ xs2)) None"
          using skiplist_path [OF sk i] unfolding xs .
        show "length hs \<le> length hs'" by (simp add: new N_def)
      next
        fix a assume "a \<in> set (0 # lev hs i (xs1 @ xs2))" "a < length hs"
        then show "length (nxt (hs' ! a)) = length (nxt (hs ! a)) \<and> nxt (hs' ! a) ! i = nxt (hs ! a) ! i"
          using same by blast
      qed
      then show ?thesis using False levN [of i] by simp
    next
      case True
      have 1: "path hs' i (Some 0) us (Some c)"
      proof (rule path_frame [where hs = hs])
        show "path hs i (Some 0) us (Some c)" using lp(1) by (simp add: us_def c_def)
        show "length hs \<le> length hs'" by (simp add: new N_def)
      next
        fix a assume a: "a \<in> set us" "a < length hs"
        then have "a \<noteq> c" using dA by auto
        moreover have "i < length (nxt (hs ! a))"
          using a(1) path_bound [OF lp(1), of a] by (simp add: us_def)
        ultimately show "length (nxt (hs' ! a)) = length (nxt (hs ! a)) \<and> nxt (hs' ! a) ! i = nxt (hs ! a) ! i"
          using a(2) oldlink [of a i] old(3) [of a] by (simp add: N_def F_def c_def)
      qed
      have cN: "c < N" using lp(2) by (simp add: c_def N_def)
      have 2: "path hs' i (Some c) [c] (Some N)"
        using cN lp(3) True oldlink [of c i] old(3) [of c] new(2)
        by (simp add: c_def F_def)
      have 3: "path hs' i (Some N) [N] (succ_at hs i xs2)"
        using True new by (simp add: nn_def)
      have 4: "path hs' i (succ_at hs i xs2) (lev hs i xs2) None"
      proof (rule path_frame [where hs = hs])
        show "path hs i (succ_at hs i xs2) (lev hs i xs2) None" by (rule lp(5))
        show "length hs \<le> length hs'" by (simp add: new N_def)
      next
        fix a assume a: "a \<in> set (lev hs i xs2)" "a < length hs"
        then have "a \<in> set xs2" using sub2 by auto
        then have "a \<noteq> pred_at hs i xs1" by (rule notpred)
        moreover have "i < length (nxt (hs ! a))" using a(1) by (simp add: lev_mem)
        ultimately show "length (nxt (hs' ! a)) = length (nxt (hs ! a)) \<and> nxt (hs' ! a) ! i = nxt (hs ! a) ! i"
          using a(2) oldlink [of a i] old(3) [of a] by (simp add: N_def F_def)
      qed
      have "path hs' i (Some 0) (us @ [c] @ [N] @ lev hs i xs2) None"
        unfolding path_append using 1 2 3 4 by blast
      moreover have "us @ [c] @ [N] @ lev hs i xs2 = 0 # lev hs' i (xs1 @ N # xs2)"
        using A True levN [of i] by simp
      ultimately show ?thesis by simp
    qed
  qed
  show ?thesis
    using p1 p2 p3 p4 p5 p6 p7 unfolding skiplist_def hs'_def [symmetric] N_def [symmetric]
    by blast
qed

lemma Store_loop_present:
  assumes sk: "skiplist ml hash (nodes s) xs" and hd: "header s = Some 0"
    and lk: "lookup (nodes s) k xs = Some b"
    and um: "\<not> Get (flags (nodes s ! b)) marked"
    and len: "length preds = ml" "length succs = ml"
  shows "Store_loop ml hash k v level preds succs s
           = ret (s\<lparr>nodes := (nodes s)[b := (nodes s ! b)\<lparr>val := v\<rparr>]\<rparr>)"
  using sk
proof (cases rule: search_cases [where k = k])
  case (absent xs1 xs2)
  then show ?thesis using lk by simp
next
  case (present xs1 b' bs)
  then have bb: "b' = b" using lk by simp
  have bl: "b < length (nodes s)"
    using skiplist_bound [OF sk, of b] lookup_mem [OF lk] by simp
  obtain preds' succs' where
    "findNode ml hash s k preds succs = ret (Some b, preds', succs')"
    using findNode_present [OF sk hd present(1,3,4) len] bb by auto
  then show ?thesis
    using bl um by (subst Store_loop.simps) simp
qed

text \<open>The locking, linking and unlocking of an insertion, on a quiescent store.\<close>

lemma insert_phase:
  fixes hs0 :: "'v stringNode list"
  assumes sk: "skiplist ml hash hs0 xs" and ct: "cut hs0 (hash k) k xs xs1 xs2"
    and free: "\<forall>a\<in>set (0 # xs). \<not> mu (hs0 ! a) \<and> flags (hs0 ! a) = {fullyLinked}"
    and lv: "0 < level" "level \<le> ml"
    and preds: "preds = map (\<lambda>j. Some (pred_at hs0 j xs1)) [0..<ml]"
    and succs: "succs = map (\<lambda>j. succ_at hs0 j xs2) [0..<ml]"
  shows "\<exists>hs1 hl hs2.
      lock_insert hs0 preds succs level 0 (-1) None = ret (hs1, hl, True)
    \<and> link_insert (hs1 @ [newStringNode hash k v level]) preds succs (Some (length hs1)) level 0 = ret hs2
    \<and> length hs1 < length hs2
    \<and> unlockString (hs2[length hs1 := (hs2 ! length hs1)\<lparr>flags := SetTrue (flags (hs2 ! length hs1)) fullyLinked\<rparr>]) preds hl
         = ret (inserted hash k v level hs0 xs1 xs2)"
proof -
  define p where "p = (\<lambda>j. pred_at hs0 j xs1)"
  define q where "q = (\<lambda>j. succ_at hs0 j xs2)"
  define N where "N = length hs0"
  define L where "L = p ` {..<level}"
  have xs: "xs = xs1 @ xs2" using ct by (simp add: cut_def)
  have dist: "distinct (0 # xs1 @ xs2)" and bound: "\<forall>a\<in>set (0 # xs1 @ xs2). a < N"
    using cut_distinct [OF sk ct] by (simp_all add: N_def)
  have cv: "convex p level"
    unfolding p_def using dist by (intro pred_at_convex) simp
  have pr: "\<forall>j<level. preds ! j = Some (p j) \<and> succs ! j = q j"
    using lv by (simp add: preds succs p_def q_def)
  have len: "level \<le> length preds" "level \<le> length succs"
    using lv by (simp_all add: preds succs)
  have pin: "p j \<in> set (0 # xs)" for j
    using pred_at_mem' [of hs0 j xs1] xs by (auto simp add: p_def)
  have pN: "p j < N" for j
    using pin [of j] bound xs by auto
  have ok: "\<forall>j<level. p j < length hs0 \<and> \<not> mu (hs0 ! p j) \<and> \<not> Get (flags (hs0 ! p j)) marked
                \<and> j < length (nxt (hs0 ! p j)) \<and> nxt (hs0 ! p j) ! j = q j"
  proof (intro allI impI)
    fix j assume "j < level"
    then have j: "j < ml" using lv by simp
    note lp = level_paths [OF sk ct j]
    have "\<not> mu (hs0 ! p j)" "flags (hs0 ! p j) = {fullyLinked}"
      using free pin [of j] by blast+
    then show "p j < length hs0 \<and> \<not> mu (hs0 ! p j) \<and> \<not> Get (flags (hs0 ! p j)) marked
                \<and> j < length (nxt (hs0 ! p j)) \<and> nxt (hs0 ! p j) ! j = q j"
      using lp(2,3,4) by (simp add: p_def q_def Get_def)
  qed
  have oks: "\<forall>j<level. \<forall>c. q j = Some c \<longrightarrow> c < length hs0 \<and> \<not> Get (flags (hs0 ! c)) marked"
  proof (intro allI impI)
    fix j c assume "j < level" "q j = Some c"
    then have "c \<in> set xs2" using succ_at_mem [of hs0 j xs2 c] by (simp add: q_def)
    then have c: "c \<in> set (0 # xs)" using xs by simp
    then have "flags (hs0 ! c) = {fullyLinked}" using free by blast
    moreover have "c < length hs0" using skiplist_bound [OF sk c] .
    ultimately show "c < length hs0 \<and> \<not> Get (flags (hs0 ! c)) marked"
      by (simp add: Get_def)
  qed
  obtain hl where lock: "lock_insert (set_mu (p ` {..<0}) True hs0) preds succs level 0 (-1) None
              = ret (set_mu (p ` {..<level}) True hs0, hl, True)"
     and hl: "(level = 0 \<and> hl = -1)
              \<or> (0 < level \<and> 0 \<le> hl \<and> nat hl < level \<and> p (nat hl) = p (level - 1))"
    using lock_insert_ok [OF cv pr len ok oks, of 0 "-1" None] by auto
  define hs1 where "hs1 = set_mu L True hs0"
  have lock': "lock_insert hs0 preds succs level 0 (-1) None = ret (hs1, hl, True)"
    using lock by (simp add: hs1_def L_def)
  have l1: "length hs1 = N" by (simp add: hs1_def N_def)
  define hsa where "hsa = hs1 @ [newStringNode hash k v level]"
  define F0 where "F0 = (\<lambda>a j. if 0 \<le> j \<and> j < level \<and> a = p j then Some (Some N)
                          else if a = N \<and> 0 \<le> j \<and> j < level then Some (q j) else None)"
  have pr2: "\<forall>j<level. preds ! j = Some (p j) \<and> succs ! j = q j \<and> p j \<noteq> N"
    using pr pN by (metis less_irrefl)
  have link: "link_insert hsa preds succs (Some N) level 0 = ret (relink F0 hsa)"
    unfolding F0_def
  proof (rule link_insert_ok [OF pr2 len])
    show "0 \<le> level" by simp
    show "N < length hsa" by (simp add: hsa_def l1)
    show "length (nxt (hsa ! N)) = level"
      by (simp add: hsa_def l1 nth_append newStringNode_def)
    show "\<forall>j<level. p j < length hsa \<and> j < length (nxt (hsa ! p j))"
    proof (intro allI impI)
      fix j assume j: "j < level"
      have "hsa ! p j = hs1 ! p j" using pN [of j] by (simp add: hsa_def nth_append l1)
      then have "nxt (hsa ! p j) = nxt (hs0 ! p j)"
        using pN [of j] by (simp add: hs1_def N_def)
      then show "p j < length hsa \<and> j < length (nxt (hsa ! p j))"
        using ok j pN [of j] by (simp add: hsa_def l1)
    qed
  qed
  define hs2 where "hs2 = relink F0 hsa"
  define hs3 where "hs3 = hs2[N := (hs2 ! N)\<lparr>flags := SetTrue (flags (hs2 ! N)) fullyLinked\<rparr>]"
  have l2: "length hs2 = Suc N" "length hs3 = Suc N"
    by (simp_all add: hs2_def hs3_def hsa_def l1)
  have old3: "hs3 ! a = relink F0 hsa ! a" if "a < N" for a
    using that by (simp add: hs3_def hs2_def)
  have olda: "hsa ! a = hs1 ! a" if "a < N" for a
    using that by (simp add: hsa_def nth_append l1)
  have unlock: "unlockString hs3 preds hl = ret (set_mu (p ` {..<level}) False hs3)"
  proof (rule unlockString_ok [OF cv _ len(1) hl])
    show "\<forall>j<level. preds ! j = Some (p j) \<and> p j < length hs3"
      using pr pN l2 by (simp add: less_Suc_eq)
    show "\<forall>j<level. mu (hs3 ! p j)"
    proof (intro allI impI)
      fix j assume j: "j < level"
      have "mu (hs3 ! p j) = mu (hs1 ! p j)"
        using pN [of j] old3 [of "p j"] olda [of "p j"] by (simp add: hsa_def l1)
      moreover have "p j \<in> L" using j by (simp add: L_def)
      ultimately show "mu (hs3 ! p j)" using pN [of j] by (simp add: hs1_def N_def)
    qed
  qed
  have final: "set_mu L False hs3 = inserted hash k v level hs0 xs1 xs2"
  proof (rule nth_equalityI)
    show "length (set_mu L False hs3) = length (inserted hash k v level hs0 xs1 xs2)"
      by (simp add: l2 inserted_def N_def)
  next
    fix a assume "a < length (set_mu L False hs3)"
    then have a: "a < Suc N" by (simp add: l2)
    show "set_mu L False hs3 ! a = inserted hash k v level hs0 xs1 xs2 ! a"
    proof (cases "a = N")
      case True
      have NL: "N \<notin> L" using pN by (auto simp add: L_def)
      have n3: "hs3 ! N = (hs2 ! N)\<lparr>flags := SetTrue (flags (hs2 ! N)) fullyLinked\<rparr>"
        using l2 by (simp add: hs3_def)
      have n2: "hs2 ! N = (hsa ! N)\<lparr>nxt := map (\<lambda>j. case F0 N j of None \<Rightarrow> nxt (hsa ! N) ! j | Some q \<Rightarrow> q)
                          [0..<length (nxt (hsa ! N))]\<rparr>"
        unfolding hs2_def by (rule relink_nth) (simp add: hsa_def l1)
      have na: "hsa ! N = newStringNode hash k v level"
        by (simp add: hsa_def nth_append l1)
      have "map (\<lambda>j. case F0 N j of None \<Rightarrow> nxt (hsa ! N) ! j | Some q \<Rightarrow> q) [0..<level]
              = map (\<lambda>j. succ_at hs0 j xs2) [0..<level]"
        using pN by (intro map_cong refl) (auto simp add: F0_def q_def)
      then have "hs3 ! N = \<lparr> key = k, score = hash k, val = v, nxt = map (\<lambda>j. succ_at hs0 j xs2) [0..<level],
          mu = False, flags = {fullyLinked} \<rparr>"
        unfolding n3 n2 na by (simp add: newStringNode_def SetTrue_def)
      then show ?thesis
        using True NL l2 by (simp add: inserted_def nth_append N_def)
    next
      case False
      then have aN: "a < N" using a by simp
      have i1: "inserted hash k v level hs0 xs1 xs2 ! a =
          (hs0 ! a)\<lparr>nxt := map (\<lambda>j. case (if j < level \<and> a = pred_at hs0 j xs1 then Some (Some (length hs0)) else None) of
                                       None \<Rightarrow> nxt (hs0 ! a) ! j | Some q \<Rightarrow> q)
                          [0..<length (nxt (hs0 ! a))]\<rparr>"
        using aN by (simp add: inserted_def nth_append N_def relink_nth)
      have a1: "hsa ! a = (if a \<in> L then (hs0 ! a)\<lparr>mu := True\<rparr> else hs0 ! a)"
        using aN olda [of a] by (simp add: hs1_def N_def)
      have ah: "a < length hsa" using aN by (simp add: hsa_def l1)
      have nha: "nxt (hsa ! a) = nxt (hs0 ! a)" using a1 by simp
      have "nxt (hs3 ! a) = map (\<lambda>j. case F0 a j of None \<Rightarrow> nxt (hsa ! a) ! j | Some q \<Rightarrow> q)
                          [0..<length (nxt (hsa ! a))]"
        using old3 [OF aN] relink_nth [OF ah, of F0] by simp
      then have n3: "nxt (hs3 ! a) = map (\<lambda>j. case F0 a j of None \<Rightarrow> nxt (hs0 ! a) ! j | Some q \<Rightarrow> q)
                          [0..<length (nxt (hs0 ! a))]"
        unfolding nha .
      have f3: "key (hs3 ! a) = key (hs0 ! a)" "score (hs3 ! a) = score (hs0 ! a)"
        "val (hs3 ! a) = val (hs0 ! a)" "flags (hs3 ! a) = flags (hs0 ! a)"
        "mu (hs3 ! a) = (a \<in> L \<or> mu (hs0 ! a))"
        using old3 [OF aN] ah a1 by simp_all
      have unl: "a \<in> L \<Longrightarrow> \<not> mu (hs0 ! a)"
      proof -
        assume "a \<in> L"
        then obtain j where "a = p j" by (auto simp add: L_def)
        then have "a \<in> set (0 # xs)" using pin [of j] by simp
        then show "\<not> mu (hs0 ! a)" using free by blast
      qed
      have links: "map (\<lambda>j. case F0 a j of None \<Rightarrow> nxt (hs0 ! a) ! j | Some q \<Rightarrow> q) [0..<length (nxt (hs0 ! a))]
            = map (\<lambda>j. case (if j < level \<and> a = pred_at hs0 j xs1 then Some (Some (length hs0)) else None) of
                                       None \<Rightarrow> nxt (hs0 ! a) ! j | Some q \<Rightarrow> q)
                          [0..<length (nxt (hs0 ! a))]"
        using False by (intro map_cong refl) (simp add: F0_def p_def N_def)
      have i2: "nxt (inserted hash k v level hs0 xs1 xs2 ! a) = nxt (hs3 ! a)"
        unfolding i1 n3 using links by simp
      show ?thesis
      proof (rule node_eqI)
        show "nxt (set_mu L False hs3 ! a) = nxt (inserted hash k v level hs0 xs1 xs2 ! a)"
          using aN l2 i2 by simp
        show "mu (set_mu L False hs3 ! a) = mu (inserted hash k v level hs0 xs1 xs2 ! a)"
          using aN l2 unl f3 unfolding i1 by auto
      qed (use aN l2 f3 in \<open>simp_all add: i1\<close>)
    qed
  qed
  have "link_insert (hs1 @ [newStringNode hash k v level]) preds succs (Some (length hs1)) level 0 = ret hs2"
    using link by (simp add: hsa_def l1 hs2_def)
  moreover have "length hs1 < length hs2" by (simp add: l1 l2)
  moreover have "unlockString (hs2[length hs1 := (hs2 ! length hs1)\<lparr>flags := SetTrue (flags (hs2 ! length hs1)) fullyLinked\<rparr>]) preds hl
         = ret (inserted hash k v level hs0 xs1 xs2)"
    using unlock final by (simp add: l1 hs3_def L_def)
  ultimately show ?thesis using lock' by blast
qed

lemma inserted_old:
  assumes "a < length hs"
  shows "key (inserted hash k v level hs xs1 xs2 ! a) = key (hs ! a)"
    "score (inserted hash k v level hs xs1 xs2 ! a) = score (hs ! a)"
    "val (inserted hash k v level hs xs1 xs2 ! a) = val (hs ! a)"
    "mu (inserted hash k v level hs xs1 xs2 ! a) = mu (hs ! a)"
    "flags (inserted hash k v level hs xs1 xs2 ! a) = flags (hs ! a)"
    "length (nxt (inserted hash k v level hs xs1 xs2 ! a)) = length (nxt (hs ! a))"
  using assms by (simp_all add: inserted_def nth_append)

lemma inserted_new:
  "inserted hash k v level hs xs1 xs2 ! length hs =
     \<lparr> key = k, score = hash k, val = v, nxt = map (\<lambda>j. succ_at hs j xs2) [0..<level],
       mu = False, flags = {fullyLinked} \<rparr>"
  "length (inserted hash k v level hs xs1 xs2) = Suc (length hs)"
  by (simp_all add: inserted_def nth_append)

lemma quiescent_insert:
  assumes qs: "quiescent ml hash s xs"
    and ct: "cut (nodes s) (hash k) k xs xs1 xs2"
    and no: "\<forall>a\<in>set xs2. key (nodes s ! a) \<noteq> k"
    and lv: "0 < level" "level \<le> ml"
  shows "quiescent ml hash
           (s\<lparr>nodes := inserted hash k v level (nodes s) xs1 xs2, mlength := mlength s + 1\<rparr>)
           (xs1 @ length (nodes s) # xs2)"
proof -
  have sk: "skiplist ml hash (nodes s) xs" and hd: "header s = Some 0"
    and free: "\<forall>a\<in>set (0 # xs). \<not> mu (nodes s ! a) \<and> flags (nodes s ! a) = {fullyLinked}"
    and ln: "mlength s = of_nat (length xs)"
    using qs by (simp_all add: quiescent_def)
  have xs: "xs = xs1 @ xs2" using ct by (simp add: cut_def)
  have sk': "skiplist ml hash (inserted hash k v level (nodes s) xs1 xs2) (xs1 @ length (nodes s) # xs2)"
    by (rule skiplist_insert [OF sk ct no lv])
  have fr': "\<not> mu (inserted hash k v level (nodes s) xs1 xs2 ! a)
           \<and> flags (inserted hash k v level (nodes s) xs1 xs2 ! a) = {fullyLinked}"
    if "a \<in> set (0 # xs1 @ length (nodes s) # xs2)" for a
  proof (cases "a = length (nodes s)")
    case True
    then show ?thesis by (simp add: inserted_new)
  next
    case False
    then have a: "a \<in> set (0 # xs)" using that xs by auto
    then have "a < length (nodes s)" by (rule skiplist_bound [OF sk])
    moreover have "\<not> mu (nodes s ! a) \<and> flags (nodes s ! a) = {fullyLinked}"
      using free a by blast
    ultimately show ?thesis by (simp add: inserted_old)
  qed
  show ?thesis
    unfolding quiescent_def using sk' hd fr' ln xs by simp
qed

lemma Store_absent:
  assumes qs: "quiescent ml hash s xs"
    and ct: "cut (nodes s) (hash k) k xs xs1 xs2"
    and no1: "\<forall>a\<in>set xs1. key (nodes s ! a) \<noteq> k"
    and no: "\<forall>a\<in>set xs2. key (nodes s ! a) \<noteq> k"
    and lv: "0 < level" "level \<le> ml"
  shows "Store ml hash k v level s =
           ret (s\<lparr>nodes := inserted hash k v level (nodes s) xs1 xs2, mlength := mlength s + 1\<rparr>)"
proof -
  define s' where "s' = s\<lparr>nodes := inserted hash k v level (nodes s) xs1 xs2, mlength := mlength s + 1\<rparr>"
  define preds where "preds = map (\<lambda>j. Some (pred_at (nodes s) j xs1)) [0..<ml]"
  define succs where "succs = map (\<lambda>j. succ_at (nodes s) j xs2) [0..<ml]"
  have sk: "skiplist ml hash (nodes s) xs" and hd: "header s = Some 0"
    and free: "\<forall>a\<in>set (0 # xs). \<not> mu (nodes s ! a) \<and> flags (nodes s ! a) = {fullyLinked}"
    using qs by (simp_all add: quiescent_def)
  have find: "findNode ml hash s k (replicate ml None) (replicate ml None) = ret (None, preds, succs)"
    unfolding preds_def succs_def by (rule findNode_absent [OF sk hd ct no]) simp_all
  obtain hs1 hl hs2 where
    lock: "lock_insert (nodes s) preds succs level 0 (-1) None = ret (hs1, hl, True)"
    and link: "link_insert (hs1 @ [newStringNode hash k v level]) preds succs (Some (length hs1)) level 0 = ret hs2"
    and l12: "length hs1 < length hs2"
    and unlock: "unlockString (hs2[length hs1 := (hs2 ! length hs1)\<lparr>flags := SetTrue (flags (hs2 ! length hs1)) fullyLinked\<rparr>]) preds hl
         = ret (inserted hash k v level (nodes s) xs1 xs2)"
    using insert_phase [OF sk ct free lv preds_def succs_def, of v] by blast
  have qs': "quiescent ml hash s' (xs1 @ length (nodes s) # xs2)"
    unfolding s'_def by (rule quiescent_insert [OF qs ct no lv])
  then have sk': "skiplist ml hash (nodes s') (xs1 @ length (nodes s) # xs2)"
    and hd': "header s' = Some 0"
    by (simp_all add: quiescent_def)
  have new: "nodes s' ! length (nodes s) =
     \<lparr> key = k, score = hash k, val = v, nxt = map (\<lambda>j. succ_at (nodes s) j xs2) [0..<level],
       mu = False, flags = {fullyLinked} \<rparr>"
    by (simp add: s'_def inserted_new)
  have "\<forall>a\<in>set xs1. a < length (nodes s)"
    using skiplist_bound [OF sk] ct by (simp add: cut_def)
  then have "\<forall>a\<in>set xs1. key (nodes s' ! a) \<noteq> k"
    using no1 by (simp add: s'_def inserted_old)
  then have "find (\<lambda>a. key (nodes s' ! a) = k) xs1 = None"
    by (simp add: find_None_iff)
  moreover have "find P (as @ bs) = (case find P as of None \<Rightarrow> find P bs | Some a \<Rightarrow> Some a)"
    for P and as bs :: "nat list"
    by (induction as) simp_all
  ultimately have lk': "lookup (nodes s') k (xs1 @ length (nodes s) # xs2) = Some (length (nodes s))"
    using new by (simp add: lookup_def)
  have um: "\<not> Get (flags (nodes s' ! length (nodes s))) marked"
    using new by (simp add: Get_def)
  have "Store_loop ml hash k v level preds succs s'
           = ret (s'\<lparr>nodes := (nodes s')[length (nodes s) := (nodes s' ! length (nodes s))\<lparr>val := v\<rparr>]\<rparr>)"
    by (rule Store_loop_present [OF sk' hd' lk' um]) (simp_all add: preds_def succs_def)
  moreover have "(nodes s' ! length (nodes s))\<lparr>val := v\<rparr> = nodes s' ! length (nodes s)"
    using new by simp
  ultimately have again: "Store_loop ml hash k v level preds succs s' = ret s'"
    by simp
  show ?thesis
    unfolding Store_def s'_def [symmetric]
    apply (subst Store_loop.simps)
    using l12 apply (simp add: find lock link unlock)
    using again apply (simp add: s'_def)
    done
qed

section \<open>Marking, unlinking and removal\<close>

lemma lock_delete_ok:
  fixes p :: "nat \<Rightarrow> nat" and q :: "nat \<Rightarrow> ptr"
  assumes cv: "convex p H"
    and pr: "\<forall>j<H. preds ! j = Some (p j) \<and> succs ! j = q j"
    and len: "H \<le> length preds" "H \<le> length succs"
    and ok: "\<forall>j<H. p j < length hs0 \<and> \<not> mu (hs0 ! p j) \<and> \<not> Get (flags (hs0 ! p j)) marked
                \<and> j < length (nxt (hs0 ! p j)) \<and> nxt (hs0 ! p j) ! j = q j"
  shows "layer \<le> H \<Longrightarrow>
     (layer = 0 \<and> hl = -1 \<and> pp = None)
       \<or> (0 < layer \<and> pp = Some (p (layer - 1)) \<and> 0 \<le> hl \<and> nat hl < layer \<and> p (nat hl) = p (layer - 1)) \<Longrightarrow>
     \<exists>hl'. lock_delete (set_mu (p ` {..<layer}) True hs0) preds succs (int H - 1) layer hl pp
              = ret (set_mu (p ` {..<H}) True hs0, hl', True)
          \<and> ((H = 0 \<and> hl' = -1)
              \<or> (0 < H \<and> 0 \<le> hl' \<and> nat hl' < H \<and> p (nat hl') = p (H - 1)))"
proof (induction "H - layer" arbitrary: layer hl pp)
  case 0
  then have "layer = H" by simp
  then show ?case
    using 0 by (subst lock_delete.simps) auto
next
  case (Suc n)
  then have ll: "layer < H" by simp
  define hs where "hs = set_mu (p ` {..<layer}) True hs0"
  define hsN where "hsN = set_mu (p ` {..<Suc layer}) True hs0"
  define hlN where "hlN = (if Some (p layer) \<noteq> pp then int layer else hl)"
  have pl: "preds ! layer = Some (p layer)" "succs ! layer = q layer"
    using pr ll by simp_all
  have okl: "p layer < length hs0" "\<not> mu (hs0 ! p layer)" "\<not> Get (flags (hs0 ! p layer)) marked"
    "layer < length (nxt (hs0 ! p layer))" "nxt (hs0 ! p layer) ! layer = q layer"
    using ok ll by simp_all
  have step1: "(if preds ! layer \<noteq> pp
                then bnd (Lock hs (preds ! layer)) (\<lambda>hs'. ret (hs', int layer, preds ! layer))
                else ret (hs, hl, pp)) = ret (hsN, hlN, Some (p layer))"
  proof (cases "Some (p layer) \<noteq> pp")
    case True
    have fresh: "p layer \<notin> p ` {..<layer}"
    proof (cases "layer = 0")
      case True
      then show ?thesis by simp
    next
      case False
      then have "pp = Some (p (layer - 1))" using Suc.prems by simp
      then have "p layer \<noteq> p (layer - 1)" using True by auto
      then show ?thesis using convex_fresh [OF cv ll] False by simp
    qed
    then have "\<not> mu (hs ! p layer)" using okl by (simp add: hs_def)
    then have "Lock hs (Some (p layer)) = ret (set_mu {p layer} True hs)"
      using okl by (intro Lock_set_mu) (simp_all add: hs_def)
    moreover have "set_mu {p layer} True hs = hsN"
      by (simp add: hs_def hsN_def set_mu_set_mu lessThan_Suc)
    ultimately show ?thesis using True pl by (simp add: hlN_def)
  next
    case False
    then have "pp = Some (p layer)" by simp
    then have "layer \<noteq> 0" "p (layer - 1) = p layer" using Suc.prems by auto
    then have "p layer \<in> p ` {..<layer}"
      by (metis diff_less imageI lessThan_iff less_numeral_extra(1) not_gr_zero)
    then have "insert (p layer) (p ` {..<layer}) = p ` {..<layer}" by auto
    then have "hsN = hs" by (simp add: hs_def hsN_def lessThan_Suc)
    then show ?thesis using False pl by (simp add: hlN_def)
  qed
  have step2: "deref hsN (preds ! layer) = ret (hsN ! p layer)"
    using okl pl by (simp add: hsN_def)
  have fl: "flags (hsN ! a) = flags (hs0 ! a)" "nxt (hsN ! a) = nxt (hs0 ! a)" if "a < length hs0" for a
    using that by (simp_all add: hsN_def)
  have s3b: "loadNext hsN (preds ! layer) layer = ret (succs ! layer)"
    using okl pl fl [of "p layer"] by (simp add: hsN_def)
  have inv': "(Suc layer = 0 \<and> hlN = -1 \<and> Some (p layer) = None)
       \<or> (0 < Suc layer \<and> Some (p layer) = Some (p (Suc layer - 1)) \<and> 0 \<le> hlN
            \<and> nat hlN < Suc layer \<and> p (nat hlN) = p (Suc layer - 1))"
  proof (cases "Some (p layer) \<noteq> pp")
    case True
    then show ?thesis by (simp add: hlN_def)
  next
    case False
    then have "pp = Some (p layer)" by simp
    then show ?thesis using Suc.prems by (auto simp add: hlN_def)
  qed
  have "\<exists>hl'. lock_delete (set_mu (p ` {..<Suc layer}) True hs0) preds succs (int H - 1) (Suc layer) hlN (Some (p layer))
              = ret (set_mu (p ` {..<H}) True hs0, hl', True)
          \<and> ((H = 0 \<and> hl' = -1)
              \<or> (0 < H \<and> 0 \<le> hl' \<and> nat hl' < H \<and> p (nat hl') = p (H - 1)))"
    using Suc.hyps(2) ll inv' by (intro Suc.hyps(1)) simp_all
  then obtain hl' where
    rec: "lock_delete hsN preds succs (int H - 1) (Suc layer) hlN (Some (p layer))
              = ret (set_mu (p ` {..<H}) True hs0, hl', True)"
    and fin: "(H = 0 \<and> hl' = -1)
              \<or> (0 < H \<and> 0 \<le> hl' \<and> nat hl' < H \<and> p (nat hl') = p (H - 1))"
    unfolding hsN_def by blast
  have "lock_delete hs preds succs (int H - 1) layer hl pp = ret (set_mu (p ` {..<H}) True hs0, hl', True)"
    apply (subst lock_delete.simps)
    apply (simp only: step1 bnd_ret split)
    using ll len okl(3) fl [of "p layer"] okl(1)
    apply (simp add: step2 s3b rec del: set_mu_nth)
    done
  then show ?case using fin unfolding hs_def by blast
qed

lemma relink_untouched:
  "a < length hs \<Longrightarrow> \<forall>j<length (nxt (hs ! a)). f a j = None \<Longrightarrow> relink f hs ! a = hs ! a"
proof -
  assume a: "a < length hs" and n: "\<forall>j<length (nxt (hs ! a)). f a j = None"
  have "nxt (relink f hs ! a) = nxt (hs ! a)"
    using a n by (intro nth_equalityI) (simp_all add: relink_link)
  then show ?thesis using a by (intro node_eqI) simp_all
qed

lemma unlink_ok:
  fixes p :: "nat \<Rightarrow> nat"
  assumes pr: "\<forall>j<H. preds ! j = Some (p j) \<and> p j \<noteq> b"
    and len: "H \<le> length preds"
  shows "n \<le> H \<Longrightarrow> b < length hs \<Longrightarrow> H \<le> length (nxt (hs ! b)) \<Longrightarrow>
     \<forall>j<H. p j < length hs \<and> j < length (nxt (hs ! p j)) \<Longrightarrow>
     unlink hs preds (Some b) n =
       ret (relink (\<lambda>a j. if j < n \<and> a = p j then Some (nxt (hs ! b) ! j) else None) hs)"
proof (induction n arbitrary: hs)
  case 0
  have "relink (\<lambda>a j. if j < 0 \<and> a = p j then Some (nxt (hs ! b) ! j) else None) hs = relink (\<lambda>a j. None) hs"
    by (intro relink_cong) simp
  then show ?case by simp
next
  case (Suc i)
  have i: "i < H" using Suc.prems by simp
  have pi: "preds ! i = Some (p i)" "p i \<noteq> b" "p i < length hs" "i < length (nxt (hs ! p i))"
    using pr i Suc.prems by simp_all
  let ?f1 = "\<lambda>a' j. if a' = p i \<and> j = i then Some (nxt (hs ! b) ! i) else None"
  let ?hs1 = "relink ?f1 hs"
  have s1: "storeNext hs (Some (p i)) i (nxt (hs ! b) ! i) = ret ?hs1"
    using pi by (intro storeNext_relink) simp_all
  have b1: "?hs1 ! b = hs ! b"
    using Suc.prems pi by (intro relink_untouched) simp_all
  have rec: "unlink ?hs1 preds (Some b) i =
       ret (relink (\<lambda>a j. if j < i \<and> a = p j then Some (nxt (?hs1 ! b) ! j) else None) ?hs1)"
    using Suc.prems i b1 by (intro Suc.IH) simp_all
  have rec': "unlink ?hs1 preds (Some b) i =
       ret (relink (\<lambda>a j. if j < i \<and> a = p j then Some (nxt (hs ! b) ! j) else None) ?hs1)"
    using rec unfolding b1 .
  have comb: "relink (\<lambda>a j. if j < i \<and> a = p j then Some (nxt (hs ! b) ! j) else None) ?hs1
      = relink (\<lambda>a j. if j < Suc i \<and> a = p j then Some (nxt (hs ! b) ! j) else None) hs"
    unfolding relink_relink
  proof (intro relink_cong)
    fix a j
    show "(case if j < i \<and> a = p j then Some (nxt (hs ! b) ! j) else None of
            None \<Rightarrow> ?f1 a j | Some q \<Rightarrow> Some q) =
           (if j < Suc i \<and> a = p j then Some (nxt (hs ! b) ! j) else None)"
      by (cases "j = i") auto
  qed
  show ?case
    using Suc.prems i len pi(1) s1 rec' comb by simp
qed

lemma removed_fields:
  assumes "a < length hs"
  shows "key (removed hs xs1 b ! a) = key (hs ! a)"
    "score (removed hs xs1 b ! a) = score (hs ! a)"
    "val (removed hs xs1 b ! a) = val (hs ! a)"
    "mu (removed hs xs1 b ! a) = mu (hs ! a)"
    "length (nxt (removed hs xs1 b ! a)) = length (nxt (hs ! a))"
    "a \<noteq> b \<Longrightarrow> flags (removed hs xs1 b ! a) = flags (hs ! a)"
    "length (removed hs xs1 b) = length hs"
  using assms by (cases "a = b"; simp add: removed_def)+

lemma length_removed [simp]: "length (removed hs xs1 b) = length hs"
  by (simp add: removed_def)

lemma removed_marked: "b < length hs \<Longrightarrow> flags (removed hs xs1 b ! b) = insert marked (flags (hs ! b))"
  by (simp add: removed_def)

lemma removed_link:
  assumes "a < length hs" "j < length (nxt (hs ! a))" "a \<noteq> b"
  shows "nxt (removed hs xs1 b ! a) ! j =
           (if j < length (nxt (hs ! b)) \<and> a = pred_at hs j xs1 then nxt (hs ! b) ! j
            else nxt (hs ! a) ! j)"
  using assms by (simp add: removed_def relink_link)

lemma skiplist_remove:
  assumes sk: "skiplist ml hash hs xs" and ct: "cut hs (hash k) k xs xs1 (b # bs)"
  shows "skiplist ml hash (removed hs xs1 b) (xs1 @ bs)"
proof -
  define hs' where "hs' = removed hs xs1 b"
  define H where "H = length (nxt (hs ! b))"
  have xs: "xs = xs1 @ b # bs" using ct by (simp add: cut_def)
  have dist: "distinct (0 # xs1 @ b # bs)" and bound: "\<forall>a\<in>set (0 # xs1 @ b # bs). a < length hs"
    using cut_distinct [OF sk ct] by simp_all
  have old: "key (hs' ! a) = key (hs ! a)" "score (hs' ! a) = score (hs ! a)"
    "length (nxt (hs' ! a)) = length (nxt (hs ! a))" if "a < length hs" for a
    using that by (simp_all add: hs'_def removed_fields)
  have link: "nxt (hs' ! a) ! j = (if j < H \<and> a = pred_at hs j xs1 then nxt (hs ! b) ! j else nxt (hs ! a) ! j)"
    if "a < length hs" "j < length (nxt (hs ! a))" "a \<noteq> b" for a j
    using that by (simp add: hs'_def removed_link H_def)
  have levs: "lev hs' i ys = lev hs i ys" if "set ys \<subseteq> set (0 # xs1 @ b # bs)" for i ys
    unfolding lev_def using that bound old(3) by (intro filter_cong refl) auto
  have l1: "lev hs' i xs1 = lev hs i xs1" for i by (rule levs) auto
  have l2: "lev hs' i bs = lev hs i bs" for i by (rule levs) auto
  have srt0: "sorted_wrt (\<lambda>a b. before hash (key (hs ! a)) (key (hs ! b))) (xs1 @ b # bs)"
    using sk xs by (simp add: skiplist_def)
  have p1: "0 < ml" using sk by (simp add: skiplist_def)
  have p2: "0 \<notin> set (xs1 @ bs)" using dist by auto
  have p3: "distinct (xs1 @ bs)" using dist by auto
  have p4: "\<forall>a\<in>set (xs1 @ bs). 0 < length (nxt (hs' ! a)) \<and> length (nxt (hs' ! a)) \<le> ml
                      \<and> score (hs' ! a) = hash (key (hs' ! a))"
  proof
    fix a assume a: "a \<in> set (xs1 @ bs)"
    then have "a \<in> set xs" using xs by auto
    moreover have "a < length hs" using a bound by auto
    ultimately show "0 < length (nxt (hs' ! a)) \<and> length (nxt (hs' ! a)) \<le> ml
                      \<and> score (hs' ! a) = hash (key (hs' ! a))"
      using sk old [of a] by (simp add: skiplist_def)
  qed
  have p5: "sorted_wrt (\<lambda>a b. before hash (key (hs' ! a)) (key (hs' ! b))) (xs1 @ bs)"
  proof -
    have "sorted_wrt (\<lambda>a b. before hash (key (hs ! a)) (key (hs ! b))) (xs1 @ bs)"
      using srt0 by (simp add: sorted_wrt_append)
    then show ?thesis
    proof (rule sorted_wrt_mono_rel [rotated])
      fix a c assume "a \<in> set (xs1 @ bs)" "c \<in> set (xs1 @ bs)"
        "before hash (key (hs ! a)) (key (hs ! c))"
      moreover have "a \<in> set (xs1 @ bs) \<Longrightarrow> a < length hs" for a using bound by auto
      ultimately show "before hash (key (hs' ! a)) (key (hs' ! c))"
        using old(1) [of a] old(1) [of c] by simp
    qed
  qed
  have p6: "length (nxt (hs' ! 0)) = ml"
    using old(3) [of 0] bound sk by (simp add: skiplist_def)
  have notpred: "a \<noteq> pred_at hs j xs1" if "a \<in> set (b # bs)" for a j
  proof
    assume "a = pred_at hs j xs1"
    then have "a \<in> set (0 # xs1)" using pred_at_mem' [of hs j xs1] by simp
    then show False using that dist by auto
  qed
  have p7: "\<forall>i\<in>{..<ml}. path hs' i (Some 0) (0 # lev hs' i (xs1 @ bs)) None"
  proof
    fix i assume "i \<in> {..<ml}"
    then have i: "i < ml" by simp
    note lp = level_paths [OF sk ct i]
    define c where "c = pred_at hs i xs1"
    define us where "us = butlast (0 # lev hs i xs1)"
    have A: "0 # lev hs i xs1 = us @ [c]"
      unfolding us_def c_def pred_at_def by (rule append_butlast_last_id [symmetric]) simp
    have dA: "distinct (us @ [c])"
    proof -
      have "distinct (0 # lev hs i xs1)" using dist by (simp add: lev_def)
      then show ?thesis using A by simp
    qed
    have cb: "c \<noteq> b" using notpred [of b i] by (simp add: c_def)
    have usb: "b \<notin> set us"
    proof -
      have "set (0 # lev hs i xs1) \<subseteq> set (0 # xs1)" using lev_subset [of hs i xs1] by auto
      then have "set us \<subseteq> set (0 # xs1)" using A by auto
      then show ?thesis using dist by auto
    qed
    have 1: "path hs' i (Some 0) us (Some c)"
    proof (rule path_frame [where hs = hs])
      show "path hs i (Some 0) us (Some c)" using lp(1) by (simp add: us_def c_def)
      show "length hs \<le> length hs'" by (simp add: hs'_def)
    next
      fix a assume a: "a \<in> set us" "a < length hs"
      then have "a \<noteq> c" using dA by auto
      moreover have "a \<noteq> b" using a usb by auto
      moreover have "i < length (nxt (hs ! a))"
        using a(1) path_bound [OF lp(1), of a] by (simp add: us_def)
      ultimately show "length (nxt (hs' ! a)) = length (nxt (hs ! a)) \<and> nxt (hs' ! a) ! i = nxt (hs ! a) ! i"
        using a(2) link [of a i] old(3) [of a] by (simp add: c_def)
    qed
    have frame2: "path hs' i r (lev hs i bs) None" if "path hs i r (lev hs i bs) None" for r
    proof (rule path_frame [where hs = hs])
      show "path hs i r (lev hs i bs) None" by (rule that)
      show "length hs \<le> length hs'" by (simp add: hs'_def)
    next
      fix a assume a: "a \<in> set (lev hs i bs)" "a < length hs"
      then have ab: "a \<in> set bs" using lev_subset [of hs i bs] by auto
      then have "a \<noteq> pred_at hs i xs1" using notpred [of a i] by simp
      moreover have "a \<noteq> b" using ab dist by auto
      moreover have "i < length (nxt (hs ! a))" using a(1) by (simp add: lev_mem)
      ultimately show "length (nxt (hs' ! a)) = length (nxt (hs ! a)) \<and> nxt (hs' ! a) ! i = nxt (hs ! a) ! i"
        using a(2) link [of a i] old(3) [of a] by simp
    qed
    have cl: "c < length hs" "i < length (nxt (hs ! c))" using lp(2,3) by (simp_all add: c_def)
    show "path hs' i (Some 0) (0 # lev hs' i (xs1 @ bs)) None"
    proof (cases "i < H")
      case False
      then have "lev hs i (b # bs) = lev hs i bs" by (simp add: lev_def H_def)
      then have r: "path hs i (succ_at hs i (b # bs)) (lev hs i bs) None" using lp(5) by simp
      have "nxt (hs' ! c) ! i = succ_at hs i (b # bs)"
        using link [of c i] cl cb False lp(4) by (simp add: c_def)
      then have 2: "path hs' i (Some c) [c] (succ_at hs i (b # bs))"
        using cl old(3) [of c] by (simp add: hs'_def removed_fields)
      have "path hs' i (Some 0) (us @ [c] @ lev hs i bs) None"
        unfolding path_append using 1 2 frame2 [OF r] by blast
      moreover have "us @ [c] @ lev hs i bs = 0 # lev hs' i (xs1 @ bs)"
        using A l1 [of i] l2 [of i] by simp
      ultimately show ?thesis by simp
    next
      case True
      then have "lev hs i (b # bs) = b # lev hs i bs" by (simp add: lev_def H_def)
      then have "path hs i (succ_at hs i (b # bs)) (b # lev hs i bs) None" using lp(5) by simp
      then have r: "path hs i (nxt (hs ! b) ! i) (lev hs i bs) None" by simp
      have "nxt (hs' ! c) ! i = nxt (hs ! b) ! i"
        using link [of c i] cl cb True by (simp add: c_def)
      then have 2: "path hs' i (Some c) [c] (nxt (hs ! b) ! i)"
        using cl old(3) [of c] by (simp add: hs'_def removed_fields)
      have "path hs' i (Some 0) (us @ [c] @ lev hs i bs) None"
        unfolding path_append using 1 2 frame2 [OF r] by blast
      moreover have "us @ [c] @ lev hs i bs = 0 # lev hs' i (xs1 @ bs)"
        using A l1 [of i] l2 [of i] by simp
      ultimately show ?thesis by simp
    qed
  qed
  show ?thesis
    using p1 p2 p3 p4 p5 p6 p7 unfolding skiplist_def hs'_def [symmetric]
    by blast
qed

text \<open>The marking, locking, unlinking and unlocking of a removal, on a quiescent store.\<close>

lemma delete_phase:
  fixes hs0 :: "'v stringNode list"
  assumes sk: "skiplist ml hash hs0 xs" and ct: "cut hs0 (hash k) k xs xs1 (b # bs)"
    and free: "\<forall>a\<in>set (0 # xs). \<not> mu (hs0 ! a) \<and> flags (hs0 ! a) = {fullyLinked}"
    and preds: "preds = map (\<lambda>j. Some (pred_at hs0 j xs1)) [0..<ml]"
    and succs: "succs = map (\<lambda>j. succ_at hs0 j (b # bs)) [0..<ml]"
    and H: "H = length (nxt (hs0 ! b))"
  shows "\<exists>hsm hs1 hl hs2 hs3.
      can_delete hs0 False (int H - 1) succs = ret True
    \<and> mark_node hs0 False (int H - 1) succs nd tp = ret (Inr (hsm, Some b, int H - 1))
    \<and> lock_delete hsm preds succs (int H - 1) 0 (-1) None = ret (hs1, hl, True)
    \<and> unlink hs1 preds (Some b) (nat (int H - 1 + 1)) = ret hs2
    \<and> Unlock hs2 (Some b) = ret hs3
    \<and> unlockString hs3 preds hl = ret (removed hs0 xs1 b)"
proof -
  define p where "p = (\<lambda>j. pred_at hs0 j xs1)"
  define q where "q = (\<lambda>j. succ_at hs0 j (b # bs))"
  define N where "N = length hs0"
  define L where "L = p ` {..<H}"
  have xs: "xs = xs1 @ b # bs" using ct by (simp add: cut_def)
  have dist: "distinct (0 # xs1 @ b # bs)" and bound: "\<forall>a\<in>set (0 # xs1 @ b # bs). a < N"
    using cut_distinct [OF sk ct] by (simp_all add: N_def)
  have bN: "b < N" using bound by simp
  have Hb: "0 < H" "H \<le> ml" using cut_scores [OF sk ct, of b] by (simp_all add: H)
  have bfree: "\<not> mu (hs0 ! b)" "flags (hs0 ! b) = {fullyLinked}"
    using free xs by simp_all
  have cv: "convex p H"
    unfolding p_def using dist by (intro pred_at_convex) simp
  have pr: "\<forall>j<H. preds ! j = Some (p j) \<and> succs ! j = q j"
    using Hb by (simp add: preds succs p_def q_def)
  have len: "H \<le> length preds" "H \<le> length succs"
    using Hb by (simp_all add: preds succs)
  have pin: "p j \<in> set (0 # xs1)" for j
    using pred_at_mem' [of hs0 j xs1] by (simp add: p_def)
  have pN: "p j < N" for j
    using pin [of j] bound by auto
  have pb: "p j \<noteq> b" for j
    using pin [of j] dist by auto
  have qb: "q j = Some b" if "j < H" for j
    using that by (simp add: q_def succ_at_def lev_def H)
  \<comment> \<open>the test and the mark\<close>
  have can: "can_delete hs0 False (int H - 1) succs = ret True"
  proof -
    have "nat (int H - 1) < length succs" "nat (int H - 1) < H"
      using Hb len by simp_all
    moreover have "succs ! nat (int H - 1) = Some b"
      using pr qb [of "nat (int H - 1)"] Hb by simp
    ultimately show ?thesis
      using Hb bN bfree by (simp add: can_delete_def MGet_def N_def H)
  qed
  define hsm where "hsm = hs0[b := (hs0 ! b)\<lparr>mu := True, flags := {fullyLinked, marked}\<rparr>]"
  have mark: "mark_node hs0 False (int H - 1) succs nd tp = ret (Inr (hsm, Some b, int H - 1))"
  proof -
    have sb: "succs ! nat (int H - 1) = Some b"
      using pr qb [of "nat (int H - 1)"] Hb by simp
    have "Lock hs0 (Some b) = ret (set_mu {b} True hs0)"
      by (rule Lock_set_mu) (use bN bfree in \<open>simp_all add: N_def\<close>)
    moreover have "(set_mu {b} True hs0)[b := (set_mu {b} True hs0 ! b)\<lparr>flags := SetTrue (flags (set_mu {b} True hs0 ! b)) marked\<rparr>] = hsm"
    proof -
      have b0: "b < length hs0" using bN by (simp add: N_def)
      have "set_mu {b} True hs0 ! b = (hs0 ! b)\<lparr>mu := True\<rparr>"
        using b0 by simp
      moreover have "(set_mu {b} True hs0)[b := x] = hs0[b := x]" for x
        using b0 by (intro nth_equalityI) (simp_all add: nth_list_update)
      ultimately show ?thesis
        using bfree by (simp add: hsm_def SetTrue_def insert_commute)
    qed
    ultimately show ?thesis
      using bN bfree by (simp add: mark_node_def sb N_def Get_def)
  qed
  have lm: "length hsm = N" by (simp add: hsm_def N_def)
  have oldm: "hsm ! a = hs0 ! a" if "a \<noteq> b" for a
    using that by (simp add: hsm_def)
  have bm: "hsm ! b = (hs0 ! b)\<lparr>mu := True, flags := {fullyLinked, marked}\<rparr>"
    using bN by (simp add: hsm_def N_def)
  \<comment> \<open>the locks\<close>
  have ok: "\<forall>j<H. p j < length hsm \<and> \<not> mu (hsm ! p j) \<and> \<not> Get (flags (hsm ! p j)) marked
                \<and> j < length (nxt (hsm ! p j)) \<and> nxt (hsm ! p j) ! j = q j"
  proof (intro allI impI)
    fix j assume "j < H"
    then have j: "j < ml" using Hb by simp
    note lp = level_paths [OF sk ct j]
    have "p j \<in> set (0 # xs)" using pin [of j] xs by auto
    then have "\<not> mu (hs0 ! p j)" "flags (hs0 ! p j) = {fullyLinked}"
      using free by blast+
    then show "p j < length hsm \<and> \<not> mu (hsm ! p j) \<and> \<not> Get (flags (hsm ! p j)) marked
                \<and> j < length (nxt (hsm ! p j)) \<and> nxt (hsm ! p j) ! j = q j"
      using lp(2,3,4) oldm [OF pb [of j]] lm by (simp add: p_def q_def Get_def N_def)
  qed
  obtain hl where lock: "lock_delete (set_mu (p ` {..<0}) True hsm) preds succs (int H - 1) 0 (-1) None
              = ret (set_mu (p ` {..<H}) True hsm, hl, True)"
     and hl: "(H = 0 \<and> hl = -1)
              \<or> (0 < H \<and> 0 \<le> hl \<and> nat hl < H \<and> p (nat hl) = p (H - 1))"
    using lock_delete_ok [OF cv pr len ok, of 0 "-1" None] by auto
  define hs1 where "hs1 = set_mu L True hsm"
  have lock': "lock_delete hsm preds succs (int H - 1) 0 (-1) None = ret (hs1, hl, True)"
    using lock by (simp add: hs1_def L_def)
  have l1: "length hs1 = N" by (simp add: hs1_def lm)
  have bL: "b \<notin> L" using pb by (auto simp add: L_def)
  have b1: "hs1 ! b = hsm ! b" using bN bL by (simp add: hs1_def lm)
  have n1: "nxt (hs1 ! a) = nxt (hs0 ! a)" if "a < N" for a
    using that bm oldm [of a] by (cases "a = b") (simp_all add: hs1_def lm)
  \<comment> \<open>the unlinking\<close>
  define G where "G = (\<lambda>a j. if j < H \<and> a = p j then Some (nxt (hs0 ! b) ! j) else None)"
  have pr2: "\<forall>j<H. preds ! j = Some (p j) \<and> p j \<noteq> b"
    using pr pb by simp
  have "unlink hs1 preds (Some b) H =
       ret (relink (\<lambda>a j. if j < H \<and> a = p j then Some (nxt (hs1 ! b) ! j) else None) hs1)"
  proof (rule unlink_ok [OF pr2 len(1)])
    show "H \<le> H" by simp
    show "b < length hs1" using bN l1 by simp
    show "H \<le> length (nxt (hs1 ! b))" using n1 [OF bN] by (simp add: H)
    show "\<forall>j<H. p j < length hs1 \<and> j < length (nxt (hs1 ! p j))"
      using ok n1 pN oldm pb l1 by simp
  qed
  then have unl: "unlink hs1 preds (Some b) (nat (int H - 1 + 1)) = ret (relink G hs1)"
    unfolding G_def n1 [OF bN] by simp
  define hs2 where "hs2 = relink G hs1"
  define hs3 where "hs3 = set_mu {b} False hs2"
  have l2: "length hs2 = N" "length hs3 = N" by (simp_all add: hs2_def hs3_def l1)
  have mb: "mu (hs2 ! b)" using bN b1 bm by (simp add: hs2_def l1)
  have unb: "Unlock hs2 (Some b) = ret hs3"
    unfolding hs3_def by (rule Unlock_set_mu) (use bN l2 mb in simp_all)
  have unlock: "unlockString hs3 preds hl = ret (set_mu (p ` {..<H}) False hs3)"
  proof (rule unlockString_ok [OF cv _ len(1) hl])
    show "\<forall>j<H. preds ! j = Some (p j) \<and> p j < length hs3"
      using pr pN l2 by simp
    show "\<forall>j<H. mu (hs3 ! p j)"
    proof (intro allI impI)
      fix j assume j: "j < H"
      have "p j \<in> L" using j by (simp add: L_def)
      then have "mu (hs1 ! p j)" using pN [of j] by (simp add: hs1_def lm)
      then show "mu (hs3 ! p j)"
        using pN [of j] pb [of j] by (simp add: hs3_def hs2_def l1)
    qed
  qed
  have final: "set_mu L False hs3 = removed hs0 xs1 b"
  proof (rule nth_equalityI)
    show "length (set_mu L False hs3) = length (removed hs0 xs1 b)"
      by (simp add: l2 N_def)
  next
    fix a assume "a < length (set_mu L False hs3)"
    then have aN: "a < N" by (simp add: l2)
    have a0: "a < length hs0" using aN by (simp add: N_def)
    have a1: "a < length hs1" using aN by (simp add: l1)
    have f2: "key (hs2 ! a) = key (hs1 ! a)" "score (hs2 ! a) = score (hs1 ! a)"
      "val (hs2 ! a) = val (hs1 ! a)" "flags (hs2 ! a) = flags (hs1 ! a)" "mu (hs2 ! a) = mu (hs1 ! a)"
      using a1 by (simp_all add: hs2_def)
    have "nxt (hs2 ! a) = map (\<lambda>j. case G a j of None \<Rightarrow> nxt (hs1 ! a) ! j | Some q \<Rightarrow> q)
                          [0..<length (nxt (hs1 ! a))]"
      unfolding hs2_def using relink_nth [OF a1, of G] by simp
    then have n2: "nxt (hs2 ! a) = map (\<lambda>j. case G a j of None \<Rightarrow> nxt (hs0 ! a) ! j | Some q \<Rightarrow> q)
                          [0..<length (nxt (hs0 ! a))]"
      unfolding n1 [OF aN] .
    have unl: "a \<in> L \<Longrightarrow> \<not> mu (hs0 ! a)"
    proof -
      assume "a \<in> L"
      then obtain j where "a = p j" by (auto simp add: L_def)
      then have "a \<in> set (0 # xs)" using pin [of j] xs by auto
      then show "\<not> mu (hs0 ! a)" using free by blast
    qed
    show "set_mu L False hs3 ! a = removed hs0 xs1 b ! a"
    proof (cases "a = b")
      case True
      have "G b j = None" for j using pb [of j] by (auto simp add: G_def)
      then have "map (\<lambda>j. case G b j of None \<Rightarrow> nxt (hs0 ! b) ! j | Some q \<Rightarrow> q) [0..<length (nxt (hs0 ! b))]
            = nxt (hs0 ! b)"
        by (intro nth_equalityI) simp_all
      then have nb: "nxt (hs2 ! b) = nxt (hs0 ! b)" using n2 unfolding True by simp
      have rb': "removed hs0 xs1 b ! b = (hs0 ! b)\<lparr>flags := insert marked (flags (hs0 ! b))\<rparr>"
        using a0 True by (simp add: removed_def)
      show ?thesis
        unfolding True
      proof (rule node_eqI)
        show "nxt (set_mu L False hs3 ! b) = nxt (removed hs0 xs1 b ! b)"
          using bN l2 nb rb' by (simp add: hs3_def)
        show "flags (set_mu L False hs3 ! b) = flags (removed hs0 xs1 b ! b)"
          using bN l2 f2 True b1 bm bfree rb' by (auto simp add: hs3_def)
        show "mu (set_mu L False hs3 ! b) = mu (removed hs0 xs1 b ! b)"
          using bN l2 bfree rb' by (simp add: hs3_def)
      qed (use bN l2 f2 True b1 bm rb' in \<open>simp_all add: hs3_def\<close>)
    next
      case False
      have h1: "hs1 ! a = (if a \<in> L then (hs0 ! a)\<lparr>mu := True\<rparr> else hs0 ! a)"
        using aN oldm [OF False] by (simp add: hs1_def lm)
      have ra: "removed hs0 xs1 b ! a = relink (\<lambda>a j. if j < length (nxt (hs0 ! b)) \<and> a = pred_at hs0 j xs1
                     then Some (nxt (hs0 ! b) ! j) else None) hs0 ! a"
        using False by (simp add: removed_def)
      have rn: "nxt (removed hs0 xs1 b ! a) = nxt (hs2 ! a)"
        unfolding ra n2 relink_nth [OF a0] G_def p_def H by simp
      show ?thesis
      proof (rule node_eqI)
        show "nxt (set_mu L False hs3 ! a) = nxt (removed hs0 xs1 b ! a)"
          using aN l2 rn False by (simp add: hs3_def)
        show "mu (set_mu L False hs3 ! a) = mu (removed hs0 xs1 b ! a)"
          using aN l2 f2 h1 unl False a0 unfolding ra by (auto simp add: hs3_def)
      qed (use aN l2 f2 h1 False a0 in \<open>simp_all add: hs3_def ra\<close>)
    qed
  qed
  have "unlockString hs3 preds hl = ret (removed hs0 xs1 b)"
    using unlock final by (simp add: L_def)
  then show ?thesis
    using can mark lock' unl unb unfolding hs2_def [symmetric] by blast
qed

lemma quiescent_remove:
  assumes qs: "quiescent ml hash s xs"
    and ct: "cut (nodes s) (hash k) k xs xs1 (b # bs)"
  shows "quiescent ml hash
           (s\<lparr>nodes := removed (nodes s) xs1 b, mlength := mlength s - 1\<rparr>) (xs1 @ bs)"
proof -
  have sk: "skiplist ml hash (nodes s) xs" and hd: "header s = Some 0"
    and free: "\<forall>a\<in>set (0 # xs). \<not> mu (nodes s ! a) \<and> flags (nodes s ! a) = {fullyLinked}"
    and ln: "mlength s = of_nat (length xs)"
    using qs by (simp_all add: quiescent_def)
  have xs: "xs = xs1 @ b # bs" using ct by (simp add: cut_def)
  have dist: "distinct (0 # xs1 @ b # bs)"
    using cut_distinct [OF sk ct] by simp
  have sk': "skiplist ml hash (removed (nodes s) xs1 b) (xs1 @ bs)"
    by (rule skiplist_remove [OF sk ct])
  have fr': "\<not> mu (removed (nodes s) xs1 b ! a) \<and> flags (removed (nodes s) xs1 b ! a) = {fullyLinked}"
    if "a \<in> set (0 # xs1 @ bs)" for a
  proof -
    have a: "a \<in> set (0 # xs)" using that xs by auto
    then have "a < length (nodes s)" by (rule skiplist_bound [OF sk])
    moreover have "\<not> mu (nodes s ! a) \<and> flags (nodes s ! a) = {fullyLinked}"
      using free a by blast
    moreover have "a \<noteq> b" using that dist by auto
    ultimately show ?thesis by (simp add: removed_fields)
  qed
  have "mlength s - 1 = of_nat (length (xs1 @ bs))"
    using ln xs by simp
  then show ?thesis
    unfolding quiescent_def using sk' hd fr' by simp
qed

lemma LoadAndDelete_present:
  assumes qs: "quiescent ml hash s xs"
    and ct: "cut (nodes s) (hash k) k xs xs1 (b # bs)"
    and kb: "key (nodes s ! b) = k"
    and no: "\<forall>a\<in>set bs. key (nodes s ! a) \<noteq> k"
  shows "LoadAndDelete ml hash k s =
           ret ((val (nodes s ! b), True),
                s\<lparr>nodes := removed (nodes s) xs1 b, mlength := mlength s - 1\<rparr>)"
proof -
  define preds where "preds = map (\<lambda>j. Some (pred_at (nodes s) j xs1)) [0..<ml]"
  define succs where "succs = map (\<lambda>j. succ_at (nodes s) j (b # bs)) [0..<ml]"
  define H where "H = length (nxt (nodes s ! b))"
  have sk: "skiplist ml hash (nodes s) xs" and hd: "header s = Some 0"
    and free: "\<forall>a\<in>set (0 # xs). \<not> mu (nodes s ! a) \<and> flags (nodes s ! a) = {fullyLinked}"
    using qs by (simp_all add: quiescent_def)
  have bl: "b < length (nodes s)"
    using skiplist_bound [OF sk, of b] ct by (simp add: cut_def)
  have find: "findNodeDelete ml hash s k (replicate ml None) (replicate ml None)
                = ret (int H - 1, preds, succs)"
    unfolding preds_def succs_def H_def
    by (rule findNodeDelete_present [OF sk hd ct kb no]) simp_all
  obtain hsm hs1 hl hs2 hs3 where
    can: "can_delete (nodes s) False (int H - 1) succs = ret True"
    and mark: "mark_node (nodes s) False (int H - 1) succs None (-1) = ret (Inr (hsm, Some b, int H - 1))"
    and lock: "lock_delete hsm preds succs (int H - 1) 0 (-1) None = ret (hs1, hl, True)"
    and unl: "unlink hs1 preds (Some b) (nat (int H - 1 + 1)) = ret hs2"
    and unb: "Unlock hs2 (Some b) = ret hs3"
    and unlock: "unlockString hs3 preds hl = ret (removed (nodes s) xs1 b)"
    using delete_phase [OF sk ct free preds_def succs_def H_def, of None "-1"] by blast
  have unl': "unlink hs1 preds (Some b) H = ret hs2"
    using unl by simp
  have v: "val (removed (nodes s) xs1 b ! b) = val (nodes s ! b)"
    using bl by (simp add: removed_fields)
  show ?thesis
    unfolding LoadAndDelete_def
    apply (subst LoadAndDelete_loop.simps)
    using bl apply (simp add: find can mark lock unl' unb unlock v)
    done
qed

section \<open>Range, the abstract map, and the operations on quiescent maps\<close>









lemma amap_lookup:
  "amap hs xs k = (case lookup hs k xs of None \<Rightarrow> None | Some b \<Rightarrow> Some (val (hs ! b)))"
  unfolding amap_def entries_def lookup_def by (induction xs) simp_all

lemma Load_amap:
  assumes qs: "quiescent ml hash s xs"
  shows "Load ml hash k s =
           ret (case amap (nodes s) xs k of None \<Rightarrow> (None, False) | Some v \<Rightarrow> (v, True))"
proof -
  have sk: "skiplist ml hash (nodes s) xs" and hd: "header s = Some 0"
    and free: "\<forall>a\<in>set (0 # xs). \<not> mu (nodes s ! a) \<and> flags (nodes s ! a) = {fullyLinked}"
    using qs by (simp_all add: quiescent_def)
  show ?thesis
  proof (cases "lookup (nodes s) k xs")
    case None
    then show ?thesis using Load_lookup [OF sk hd, of k] by (simp add: amap_lookup)
  next
    case (Some b)
    then have "b \<in> set (0 # xs)" using lookup_mem [OF Some] by simp
    then have "flags (nodes s ! b) = {fullyLinked}" using free by blast
    then show ?thesis using Load_lookup [OF sk hd, of k] Some by (simp add: amap_lookup MGet_def)
  qed
qed

lemma map_of_insert_mid:
  "k \<notin> fst ` set A \<Longrightarrow> map_of (A @ (k, v) # B) = (map_of (A @ B))(k \<mapsto> v)"
proof (induction A)
  case Nil
  then show ?case by simp
next
  case (Cons x A)
  then show ?case by (cases x) (auto simp add: fun_upd_twist)
qed



lemma skiplist_cong:
  assumes sk: "skiplist ml hash hs xs"
    and len: "length hs \<le> length hs'"
    and kv: "\<And>a. a \<in> set xs \<Longrightarrow> key (hs' ! a) = key (hs ! a) \<and> score (hs' ! a) = score (hs ! a)"
    and nx: "\<And>a. a \<in> set (0 # xs) \<Longrightarrow> nxt (hs' ! a) = nxt (hs ! a)"
  shows "skiplist ml hash hs' xs"
proof -
  have l: "lev hs' i xs = lev hs i xs" for i
    unfolding lev_def using nx by (intro filter_cong refl) simp
  have p: "path hs' i (Some 0) (0 # lev hs i xs) None" if "i < ml" for i
  proof (rule path_frame [where hs = hs])
    show "path hs i (Some 0) (0 # lev hs i xs) None" using skiplist_path [OF sk that] .
    show "length hs \<le> length hs'" by (rule len)
  next
    fix a assume "a \<in> set (0 # lev hs i xs)" "a < length hs"
    then have "a \<in> set (0 # xs)" using lev_subset [of hs i xs] by auto
    then show "length (nxt (hs' ! a)) = length (nxt (hs ! a)) \<and> nxt (hs' ! a) ! i = nxt (hs ! a) ! i"
      using nx by simp
  qed
  have s: "sorted_wrt (\<lambda>a b. before hash (key (hs' ! a)) (key (hs' ! b))) xs"
  proof (rule sorted_wrt_mono_rel)
    show "sorted_wrt (\<lambda>a b. before hash (key (hs ! a)) (key (hs ! b))) xs"
      using sk by (simp add: skiplist_def)
  next
    fix a b assume "a \<in> set xs" "b \<in> set xs" "before hash (key (hs ! a)) (key (hs ! b))"
    then show "before hash (key (hs' ! a)) (key (hs' ! b))" using kv by simp
  qed
  show ?thesis
    unfolding skiplist_def using sk kv nx l p s by (simp add: skiplist_def)
qed

lemma quiescent_NewString: "0 < ml \<Longrightarrow> quiescent ml hash (NewString ml hash e) []"
  by (simp add: quiescent_def skiplist_def NewString_def newStringNode_def SetTrue_def lev_def)

lemma entries_cong:
  "(\<And>a. a \<in> set xs \<Longrightarrow> key (hs' ! a) = key (hs ! a) \<and> val (hs' ! a) = val (hs ! a))
     \<Longrightarrow> entries hs' xs = entries hs xs"
  by (simp add: entries_def)

lemma entries_append: "entries hs (as @ bs) = entries hs as @ entries hs bs"
  by (simp add: entries_def)

lemma Store_quiescent:
  assumes qs: "quiescent ml hash s xs" and lv: "0 < level" "level \<le> ml"
  shows "\<exists>s' xs'. Store ml hash k v level s = ret s' \<and> quiescent ml hash s' xs'
           \<and> amap (nodes s') xs' = (amap (nodes s) xs)(k \<mapsto> v)
           \<and> mlength s' = (if k \<in> dom (amap (nodes s) xs) then mlength s else mlength s + 1)
           \<and> key (nodes s' ! 0) = key (nodes s ! 0) \<and> score (nodes s' ! 0) = score (nodes s ! 0)"
proof -
  have sk: "skiplist ml hash (nodes s) xs" and hd: "header s = Some 0"
    and free: "\<forall>a\<in>set (0 # xs). \<not> mu (nodes s ! a) \<and> flags (nodes s ! a) = {fullyLinked}"
    and ln: "mlength s = of_nat (length xs)"
    using qs by (simp_all add: quiescent_def)
  have bnd: "a < length (nodes s)" if "a \<in> set (0 # xs)" for a
    using skiplist_bound [OF sk that] .
  from sk show ?thesis
  proof (cases rule: search_cases [where k = k])
    case (absent xs1 xs2)
    let ?s' = "s\<lparr>nodes := inserted hash k v level (nodes s) xs1 xs2, mlength := mlength s + 1\<rparr>"
    let ?xs' = "xs1 @ length (nodes s) # xs2"
    have xs: "xs = xs1 @ xs2" using absent(1) by (simp add: cut_def)
    have no1: "\<forall>a\<in>set xs1. key (nodes s ! a) \<noteq> k"
      using absent(2) xs by (simp add: lookup_None)
    have st: "Store ml hash k v level s = ret ?s'"
      by (rule Store_absent [OF qs absent(1) no1 absent(3) lv])
    have q': "quiescent ml hash ?s' ?xs'"
      by (rule quiescent_insert [OF qs absent(1,3) lv])
    have e1: "entries (nodes ?s') xs1 = entries (nodes s) xs1"
      using bnd xs by (intro entries_cong) (simp add: inserted_old)
    have e2: "entries (nodes ?s') xs2 = entries (nodes s) xs2"
      using bnd xs by (intro entries_cong) (simp add: inserted_old)
    have en: "entries (nodes ?s') ?xs' = entries (nodes s) xs1 @ (k, v) # entries (nodes s) xs2"
      using e1 e2 by (simp add: entries_def inserted_new)
    have nk: "k \<notin> fst ` set (entries (nodes s) xs1)"
      using no1 by (auto simp add: entries_def)
    have "map_of (entries (nodes ?s') ?xs')
        = (map_of (entries (nodes s) xs1 @ entries (nodes s) xs2))(k \<mapsto> v)"
      unfolding en by (rule map_of_insert_mid [OF nk])
    then have am: "amap (nodes ?s') ?xs' = (amap (nodes s) xs)(k \<mapsto> v)"
      unfolding amap_def xs entries_append .
    have "k \<notin> dom (amap (nodes s) xs)"
      using absent(2) by (simp add: amap_lookup domIff)
    moreover have "key (nodes ?s' ! 0) = key (nodes s ! 0) \<and> score (nodes ?s' ! 0) = score (nodes s ! 0)"
      using bnd [of 0] by (simp add: inserted_old)
    ultimately show ?thesis
      using st q' am by (intro exI [of _ ?s'] exI [of _ ?xs']) simp
  next
    case (present xs1 b bs)
    let ?hs' = "(nodes s)[b := (nodes s ! b)\<lparr>val := v\<rparr>]"
    let ?s' = "s\<lparr>nodes := ?hs'\<rparr>"
    have xs: "xs = xs1 @ b # bs" using present(1) by (simp add: cut_def)
    have bx: "b \<in> set (0 # xs)" using xs by simp
    have b0: "b \<noteq> 0" using sk xs by (auto simp add: skiplist_def)
    have um: "\<not> Get (flags (nodes s ! b)) marked"
      using free bx by (auto simp add: Get_def)
    have st: "Store ml hash k v level s = ret ?s'"
      by (rule Store_present [OF sk hd present(2) um])
    have same: "key (?hs' ! a) = key (nodes s ! a)" "score (?hs' ! a) = score (nodes s ! a)"
      "nxt (?hs' ! a) = nxt (nodes s ! a)" "mu (?hs' ! a) = mu (nodes s ! a)"
      "flags (?hs' ! a) = flags (nodes s ! a)" for a
      using bnd [OF bx] by (cases "a = b"; simp)+
    have sk': "skiplist ml hash ?hs' xs"
      by (rule skiplist_cong [OF sk]) (simp_all add: same)
    have q': "quiescent ml hash ?s' xs"
      unfolding quiescent_def using sk' hd free ln by (simp add: same)
    have dist: "distinct (0 # xs1 @ b # bs)" using cut_distinct [OF sk present(1)] by simp
    have no1: "\<forall>a\<in>set xs1. key (nodes s ! a) \<noteq> k"
    proof
      fix a assume a: "a \<in> set xs1"
      then have "cmp (nodes s ! a) (hash k) k < 0" using present(1) by (simp add: cut_def)
      moreover have "score (nodes s ! a) = hash (key (nodes s ! a))"
        using cut_scores [OF sk present(1), of a] a by simp
      ultimately have "before hash (key (nodes s ! a)) k" by (simp add: cmp_less_iff)
      then show "key (nodes s ! a) \<noteq> k" by auto
    qed
    have other: "?hs' ! a = nodes s ! a" if "a \<noteq> b" for a
      using that by simp
    have e1: "entries ?hs' xs1 = entries (nodes s) xs1"
    proof (rule entries_cong)
      fix a assume "a \<in> set xs1"
      then have "a \<noteq> b" using dist by auto
      then show "key (?hs' ! a) = key (nodes s ! a) \<and> val (?hs' ! a) = val (nodes s ! a)"
        using other by simp
    qed
    have e2: "entries ?hs' bs = entries (nodes s) bs"
    proof (rule entries_cong)
      fix a assume "a \<in> set bs"
      then have "a \<noteq> b" using dist by auto
      then show "key (?hs' ! a) = key (nodes s ! a) \<and> val (?hs' ! a) = val (nodes s ! a)"
        using other by simp
    qed
    have eb: "entries ?hs' [b] = [(k, v)]" "entries (nodes s) [b] = [(k, val (nodes s ! b))]"
      using bnd [OF bx] present(3) by (simp_all add: entries_def)
    have en: "entries ?hs' xs = entries (nodes s) xs1 @ (k, v) # entries (nodes s) bs"
      "entries (nodes s) xs = entries (nodes s) xs1 @ (k, val (nodes s ! b)) # entries (nodes s) bs"
      using e1 e2 eb entries_append [of ?hs' xs1 "[b] @ bs"] entries_append [of ?hs' "[b]" bs]
        entries_append [of "nodes s" xs1 "[b] @ bs"] entries_append [of "nodes s" "[b]" bs]
      unfolding xs by simp_all
    have nk: "k \<notin> fst ` set (entries (nodes s) xs1)"
      using no1 by (auto simp add: entries_def)
    have "map_of (entries ?hs' xs) = (map_of (entries (nodes s) xs1 @ entries (nodes s) bs))(k \<mapsto> v)"
      unfolding en by (rule map_of_insert_mid [OF nk])
    moreover have "map_of (entries (nodes s) xs)
         = (map_of (entries (nodes s) xs1 @ entries (nodes s) bs))(k \<mapsto> val (nodes s ! b))"
      unfolding en by (rule map_of_insert_mid [OF nk])
    ultimately have "amap ?hs' xs = (amap (nodes s) xs)(k \<mapsto> v)"
      unfolding amap_def by simp
    then have am: "amap (nodes ?s') xs = (amap (nodes s) xs)(k \<mapsto> v)"
      by simp
    have "k \<in> dom (amap (nodes s) xs)"
      using present(2) by (simp add: amap_lookup domIff)
    moreover have "key (nodes ?s' ! 0) = key (nodes s ! 0) \<and> score (nodes ?s' ! 0) = score (nodes s ! 0)"
      using b0 by simp
    ultimately show ?thesis
      using st q' am by (intro exI [of _ ?s'] exI [of _ xs]) simp
  qed
qed

lemma LoadAndDelete_quiescent:
  assumes qs: "quiescent ml hash s xs"
  shows "\<exists>s' xs'. LoadAndDelete ml hash k s =
             ret ((case amap (nodes s) xs k of None \<Rightarrow> (None, False) | Some v \<Rightarrow> (v, True)), s')
           \<and> quiescent ml hash s' xs'
           \<and> amap (nodes s') xs' = (amap (nodes s) xs)(k := None)
           \<and> mlength s' = (if k \<in> dom (amap (nodes s) xs) then mlength s - 1 else mlength s)
           \<and> key (nodes s' ! 0) = key (nodes s ! 0) \<and> score (nodes s' ! 0) = score (nodes s ! 0)"
proof -
  have sk: "skiplist ml hash (nodes s) xs" and hd: "header s = Some 0"
    and free: "\<forall>a\<in>set (0 # xs). \<not> mu (nodes s ! a) \<and> flags (nodes s ! a) = {fullyLinked}"
    using qs by (simp_all add: quiescent_def)
  have bnd: "a < length (nodes s)" if "a \<in> set (0 # xs)" for a
    using skiplist_bound [OF sk that] .
  from sk show ?thesis
  proof (cases rule: search_cases [where k = k])
    case (absent xs1 xs2)
    have st: "LoadAndDelete ml hash k s = ret ((None, False), s)"
      using LoadAndDelete_hidden [OF sk hd] absent(2) by simp
    have n: "amap (nodes s) xs k = None"
      using absent(2) by (simp add: amap_lookup)
    then have "(amap (nodes s) xs)(k := None) = amap (nodes s) xs" by auto
    moreover have "k \<notin> dom (amap (nodes s) xs)" using n by (simp add: domIff)
    ultimately show ?thesis
      using st qs n by (intro exI [of _ s] exI [of _ xs]) simp
  next
    case (present xs1 b bs)
    let ?s' = "s\<lparr>nodes := removed (nodes s) xs1 b, mlength := mlength s - 1\<rparr>"
    have xs: "xs = xs1 @ b # bs" using present(1) by (simp add: cut_def)
    have dist: "distinct (0 # xs1 @ b # bs)" using cut_distinct [OF sk present(1)] by simp
    have st: "LoadAndDelete ml hash k s = ret ((val (nodes s ! b), True), ?s')"
      by (rule LoadAndDelete_present [OF qs present(1,3,4)])
    have q': "quiescent ml hash ?s' (xs1 @ bs)"
      by (rule quiescent_remove [OF qs present(1)])
    have v: "amap (nodes s) xs k = Some (val (nodes s ! b))"
      using present(2) by (simp add: amap_lookup)
    have no1: "\<forall>a\<in>set xs1. key (nodes s ! a) \<noteq> k"
    proof
      fix a assume a: "a \<in> set xs1"
      then have "cmp (nodes s ! a) (hash k) k < 0" using present(1) by (simp add: cut_def)
      moreover have "score (nodes s ! a) = hash (key (nodes s ! a))"
        using cut_scores [OF sk present(1), of a] a by simp
      ultimately have "before hash (key (nodes s ! a)) k" by (simp add: cmp_less_iff)
      then show "key (nodes s ! a) \<noteq> k" by auto
    qed
    have e: "entries (removed (nodes s) xs1 b) (xs1 @ bs) = entries (nodes s) (xs1 @ bs)"
    proof (rule entries_cong)
      fix a assume "a \<in> set (xs1 @ bs)"
      then have "a \<in> set (0 # xs)" using xs by auto
      then have "a < length (nodes s)" by (rule bnd)
      then show "key (removed (nodes s) xs1 b ! a) = key (nodes s ! a)
                   \<and> val (removed (nodes s) xs1 b ! a) = val (nodes s ! a)"
        by (simp add: removed_fields)
    qed
    have nk: "k \<notin> fst ` set (entries (nodes s) xs1)"
      using no1 by (auto simp add: entries_def)
    have nk2: "k \<notin> fst ` set (entries (nodes s) bs)"
      using present(4) by (auto simp add: entries_def)
    have en: "entries (nodes s) xs = entries (nodes s) xs1 @ (k, val (nodes s ! b)) # entries (nodes s) bs"
      unfolding xs using present(3) by (simp add: entries_def)
    have "map_of (entries (nodes s) xs)
         = (map_of (entries (nodes s) xs1 @ entries (nodes s) bs))(k \<mapsto> val (nodes s ! b))"
      unfolding en by (rule map_of_insert_mid [OF nk])
    moreover have "map_of (entries (nodes s) xs1 @ entries (nodes s) bs) k = None"
      using nk nk2 by (simp add: map_of_eq_None_iff)
    ultimately have "map_of (entries (nodes s) xs1 @ entries (nodes s) bs)
         = (map_of (entries (nodes s) xs))(k := None)"
      by auto
    then have am: "amap (nodes ?s') (xs1 @ bs) = (amap (nodes s) xs)(k := None)"
      using e by (simp add: amap_def entries_append)
    have "k \<in> dom (amap (nodes s) xs)" using v by (simp add: domIff)
    moreover have "key (nodes ?s' ! 0) = key (nodes s ! 0) \<and> score (nodes ?s' ! 0) = score (nodes s ! 0)"
      using bnd [of 0] by (simp add: removed_fields)
    ultimately show ?thesis
      using st q' am v by (intro exI [of _ ?s'] exI [of _ "xs1 @ bs"]) simp
  qed
qed

lemma Delete_quiescent:
  assumes qs: "quiescent ml hash s xs"
  shows "\<exists>s' xs'. Delete ml hash k s = ret s' \<and> quiescent ml hash s' xs'
           \<and> amap (nodes s') xs' = (amap (nodes s) xs)(k := None)
           \<and> mlength s' = (if k \<in> dom (amap (nodes s) xs) then mlength s - 1 else mlength s)
           \<and> key (nodes s' ! 0) = key (nodes s ! 0) \<and> score (nodes s' ! 0) = score (nodes s ! 0)"
proof -
  obtain s' xs' where "LoadAndDelete ml hash k s =
             ret ((case amap (nodes s) xs k of None \<Rightarrow> (None, False) | Some v \<Rightarrow> (v, True)), s')"
    and rest: "quiescent ml hash s' xs'" "amap (nodes s') xs' = (amap (nodes s) xs)(k := None)"
      "mlength s' = (if k \<in> dom (amap (nodes s) xs) then mlength s - 1 else mlength s)"
      "key (nodes s' ! 0) = key (nodes s ! 0)" "score (nodes s' ! 0) = score (nodes s ! 0)"
    using LoadAndDelete_quiescent [OF qs, of k] by blast
  then have "Delete ml hash k s = ret s'" by (simp add: Delete_def)
  then show ?thesis using rest by blast
qed

lemma reachable_quiescent:
  assumes "reachable ml hash s" and ml: "0 < ml"
  shows "\<exists>xs. quiescent ml hash s xs \<and> key (nodes s ! 0) = '''' \<and> score (nodes s ! 0) = hash ''''"
  using assms(1)
proof (induction rule: reachable.induct)
  case (new e)
  have "quiescent ml hash (NewString ml hash e) []" using ml by (rule quiescent_NewString)
  moreover have "key (nodes (NewString ml hash e) ! 0) = ''''"
    "score (nodes (NewString ml hash e) ! 0) = hash ''''"
    by (simp_all add: NewString_def newStringNode_def)
  ultimately show ?case by blast
next
  case (store s level k v s')
  then obtain xs where qs: "quiescent ml hash s xs"
    and h: "key (nodes s ! 0) = ''''" "score (nodes s ! 0) = hash ''''" by blast
  obtain s2 xs2 where "Store ml hash k v level s = ret s2" "quiescent ml hash s2 xs2"
    "key (nodes s2 ! 0) = key (nodes s ! 0)" "score (nodes s2 ! 0) = score (nodes s ! 0)"
    using Store_quiescent [OF qs store(2,3), of k v] by blast
  then show ?case using store(4) h by (auto simp add: ret_def)
next
  case (delete s k s')
  then obtain xs where qs: "quiescent ml hash s xs"
    and h: "key (nodes s ! 0) = ''''" "score (nodes s ! 0) = hash ''''" by blast
  obtain s2 xs2 where "Delete ml hash k s = ret s2" "quiescent ml hash s2 xs2"
    "key (nodes s2 ! 0) = key (nodes s ! 0)" "score (nodes s2 ! 0) = score (nodes s ! 0)"
    using Delete_quiescent [OF qs, of k] by blast
  then show ?case using delete(2) h by (auto simp add: ret_def)
qed

section \<open>The properties of the operations\<close>

lemma other_ops_keeps:
  assumes "other_ops ml hash k s s'" and "quiescent ml hash s xs"
  shows "\<exists>xs'. quiescent ml hash s' xs' \<and> amap (nodes s') xs' k = amap (nodes s) xs k"
  using assms
proof (induction rule: other_ops.induct)
  case (none s)
  then show ?case by blast
next
  case (store s s1 k' level v s2)
  then obtain xs1 where q1: "quiescent ml hash s1 xs1"
    and a1: "amap (nodes s1) xs1 k = amap (nodes s) xs k" by blast
  obtain t xs2 where "Store ml hash k' v level s1 = ret t" "quiescent ml hash t xs2"
    "amap (nodes t) xs2 = (amap (nodes s1) xs1)(k' \<mapsto> v)"
    using Store_quiescent [OF q1 store(3,4), of k' v] by blast
  then have "quiescent ml hash s2 xs2 \<and> amap (nodes s2) xs2 k = amap (nodes s) xs k"
    using store(2,5) a1 by (auto simp add: ret_def)
  then show ?case by blast
next
  case (delete s s1 k' s2)
  then obtain xs1 where q1: "quiescent ml hash s1 xs1"
    and a1: "amap (nodes s1) xs1 k = amap (nodes s) xs k" by blast
  obtain t xs2 where "Delete ml hash k' s1 = ret t" "quiescent ml hash t xs2"
    "amap (nodes t) xs2 = (amap (nodes s1) xs1)(k' := None)"
    using Delete_quiescent [OF q1, of k'] by blast
  then have "quiescent ml hash s2 xs2 \<and> amap (nodes s2) xs2 k = amap (nodes s) xs k"
    using delete(2,3) a1 by (auto simp add: ret_def)
  then show ?case by blast
qed

text \<open>
  C1 (as amended). On a map with no operation in flight (every linked node is fully
  linked, unmarked and unlocked), \<open>Store k v\<close> (with a level between 1 and \<open>ml\<close>) returns,
  and \<open>Load k\<close> then returns \<open>(v, True)\<close>: at once, and also after any further calls of
  \<open>Store\<close> and \<open>Delete\<close> on other keys.
\<close>

theorem store_then_load:
  assumes "quiescent ml hash s xs" and "0 < level" and "level \<le> ml"
  shows "\<exists>s'. Store ml hash k v level s = Some (Inr s')
           \<and> Load ml hash k s' = Some (Inr (v, True))
           \<and> (\<forall>s''. other_ops ml hash k s' s'' \<longrightarrow> Load ml hash k s'' = Some (Inr (v, True)))"
proof -
  obtain s' xs' where st: "Store ml hash k v level s = ret s'" and q': "quiescent ml hash s' xs'"
    and am: "amap (nodes s') xs' = (amap (nodes s) xs)(k \<mapsto> v)"
    using Store_quiescent [OF assms, of k v] by blast
  have "Load ml hash k s'' = ret (v, True)" if oo: "other_ops ml hash k s' s''" for s''
  proof -
    obtain xs'' where "quiescent ml hash s'' xs''" "amap (nodes s'') xs'' k = amap (nodes s') xs' k"
      using other_ops_keeps [OF oo q'] by blast
    then show ?thesis using am by (simp add: Load_amap)
  qed
  moreover from this have "Load ml hash k s' = ret (v, True)"
    using other_ops.none by blast
  ultimately show ?thesis using st by (auto simp add: ret_def)
qed

theorem store_then_load_witness:
  "quiescent 2 len_hash empty_map []
   \<and> Store 2 len_hash ''a'' (Some 1) 2 empty_map = Some (Inr one_key_map)
   \<and> Load 2 len_hash ''a'' one_key_map = Some (Inr (Some 1, True))
   \<and> Store 2 len_hash ''bc'' (Some 7) 1 one_key_map = Some (Inr two_key_map)
   \<and> Load 2 len_hash ''a'' two_key_map = Some (Inr (Some 1, True))"
proof -
  have q: "quiescent 2 len_hash empty_map []" by code_simp
  have s1: "Store 2 len_hash ''a'' (Some 1) 2 empty_map = Some (Inr one_key_map)" by code_simp
  have s2: "Store 2 len_hash ''bc'' (Some 7) 1 one_key_map = Some (Inr two_key_map)" by code_simp
  have o: "other_ops 2 len_hash ''a'' one_key_map two_key_map"
    by (rule other_ops.store [OF other_ops.none _ _ _ s2]) simp_all
  obtain s' where "Store 2 len_hash ''a'' (Some 1) 2 empty_map = Some (Inr s')"
    and l: "Load 2 len_hash ''a'' s' = Some (Inr (Some 1, True))"
    and a: "\<forall>s''. other_ops 2 len_hash ''a'' s' s'' \<longrightarrow> Load 2 len_hash ''a'' s'' = Some (Inr (Some 1, True))"
    using store_then_load [OF q, of 2 "''a''" "Some 1"] by auto
  then have "s' = one_key_map" using s1 by simp
  then show ?thesis using q s1 s2 o l a by blast
qed

text \<open>
  While another \<open>Store\<close> of \<open>''a''\<close> has linked its node and not yet set \<open>fullyLinked\<close>,
  \<open>Store ''a'' 5\<close> finds the node, sees that it is not marked, replaces its value and
  returns without waiting for the flag; \<open>Load ''a''\<close> then finds the node not fully
  linked and returns \<open>(nil, False)\<close>.
\<close>

theorem store_then_load_in_flight:
  "Store 2 len_hash ''a'' (Some 5) 1 pending_map
     = Some (Inr (pending_map\<lparr>nodes := (nodes pending_map)[1 := (nodes pending_map ! 1)\<lparr>val := Some 5\<rparr>]\<rparr>))
   \<and> Load 2 len_hash ''a'' (pending_map\<lparr>nodes := (nodes pending_map)[1 := (nodes pending_map ! 1)\<lparr>val := Some 5\<rparr>]\<rparr>)
     = Some (Inr (None, False))"
  by code_simp

text \<open>
  C6. On a quiescent map, \<open>Delete k\<close> returns, and \<open>Load k\<close> then reports that the key is
  absent: at once, and also after any further calls of \<open>Store\<close> and \<open>Delete\<close> on other keys.
\<close>

theorem delete_then_load:
  assumes "quiescent ml hash s xs"
  shows "\<exists>s'. Delete ml hash k s = Some (Inr s')
           \<and> Load ml hash k s' = Some (Inr (None, False))
           \<and> (\<forall>s''. other_ops ml hash k s' s'' \<longrightarrow> Load ml hash k s'' = Some (Inr (None, False)))"
proof -
  obtain s' xs' where st: "Delete ml hash k s = ret s'" and q': "quiescent ml hash s' xs'"
    and am: "amap (nodes s') xs' = (amap (nodes s) xs)(k := None)"
    using Delete_quiescent [OF assms, of k] by blast
  have "Load ml hash k s'' = ret (None, False)" if oo: "other_ops ml hash k s' s''" for s''
  proof -
    obtain xs'' where "quiescent ml hash s'' xs''" "amap (nodes s'') xs'' k = amap (nodes s') xs' k"
      using other_ops_keeps [OF oo q'] by blast
    then show ?thesis using am by (simp add: Load_amap)
  qed
  moreover from this have "Load ml hash k s' = ret (None, False)"
    using other_ops.none by blast
  ultimately show ?thesis using st by (auto simp add: ret_def)
qed

theorem delete_then_load_witness:
  "quiescent 2 len_hash two_key_map [1, 2]
   \<and> (\<exists>s'. Delete 2 len_hash ''a'' two_key_map = Some (Inr s')
           \<and> Load 2 len_hash ''a'' s' = Some (Inr (None, False))
           \<and> (\<forall>s''. other_ops 2 len_hash ''a'' s' s'' \<longrightarrow> Load 2 len_hash ''a'' s'' = Some (Inr (None, False))))"
proof -
  have q: "quiescent 2 len_hash two_key_map [1, 2]" by code_simp
  show ?thesis using q delete_then_load [OF q, of "''a''"] by (rule conjI)
qed

text \<open>
  C3 (as amended). For a key that a node \<open>b\<close> of a well-formed map holds, \<open>findNodeDelete\<close>
  goes through every level down to level \<open>0\<close> (it records a predecessor at each level)
  and returns the highest level at which \<open>b\<close> is the recorded successor, which is the
  height of \<open>b\<close> minus one; \<open>b\<close> is the recorded successor at exactly the levels from
  \<open>0\<close> up to that one.
\<close>

theorem findNodeDelete_top_layer:
  assumes sk: "skiplist ml hash (nodes s) xs" and hd: "header s = Some 0"
    and lk: "lookup (nodes s) k xs = Some b"
    and len: "length preds = ml" "length succs = ml"
  shows "\<exists>preds' succs'.
           findNodeDelete ml hash s k preds succs =
             Some (Inr (int (length (nxt (nodes s ! b))) - 1, preds', succs'))
         \<and> length preds' = ml \<and> length succs' = ml
         \<and> (\<forall>i<ml. preds' ! i \<noteq> None
                      \<and> (succs' ! i = Some b \<longleftrightarrow> int i \<le> int (length (nxt (nodes s ! b))) - 1))"
  using sk
proof (cases rule: search_cases [where k = k])
  case (absent xs1 xs2)
  then show ?thesis using lk by simp
next
  case (present xs1 b' bs)
  then have bb: "b' = b" using lk by simp
  note ct = present(1) [unfolded bb]
  have f: "findNodeDelete ml hash s k preds succs =
           ret (int (length (nxt (nodes s ! b))) - 1,
                map (\<lambda>j. Some (pred_at (nodes s) j xs1)) [0..<ml],
                map (\<lambda>j. succ_at (nodes s) j (b # bs)) [0..<ml])"
    using findNodeDelete_present [OF sk hd present(1,3,4) len] bb by simp
  have "succ_at (nodes s) i (b # bs) = Some b \<longleftrightarrow> i < length (nxt (nodes s ! b))" for i
  proof
    assume "succ_at (nodes s) i (b # bs) = Some b"
    then show "i < length (nxt (nodes s ! b))" using succ_at_mem by blast
  next
    assume "i < length (nxt (nodes s ! b))"
    then show "succ_at (nodes s) i (b # bs) = Some b" by (simp add: succ_at_def lev_def)
  qed
  then have "\<forall>i<ml. map (\<lambda>j. Some (pred_at (nodes s) j xs1)) [0..<ml] ! i \<noteq> None
       \<and> (map (\<lambda>j. succ_at (nodes s) j (b # bs)) [0..<ml] ! i = Some b
            \<longleftrightarrow> int i \<le> int (length (nxt (nodes s ! b))) - 1)"
    by auto
  then show ?thesis
    using f by (auto simp add: ret_def)
qed

theorem findNodeDelete_top_layer_witness:
  "skiplist 2 len_hash (nodes two_key_map) [1, 2] \<and> header two_key_map = Some 0
   \<and> lookup (nodes two_key_map) ''a'' [1, 2] = Some 1
   \<and> (\<exists>preds' succs'.
           findNodeDelete 2 len_hash two_key_map ''a'' [None, None] [None, None] =
             Some (Inr (int (length (nxt (nodes two_key_map ! 1))) - 1, preds', succs'))
         \<and> length preds' = 2 \<and> length succs' = 2
         \<and> (\<forall>i<2. preds' ! i \<noteq> None
                      \<and> (succs' ! i = Some 1 \<longleftrightarrow> int i \<le> int (length (nxt (nodes two_key_map ! 1))) - 1)))"
proof -
  have sk: "skiplist 2 len_hash (nodes two_key_map) [1, 2]" by code_simp
  have hd: "header two_key_map = Some 0" by code_simp
  have lk: "lookup (nodes two_key_map) ''a'' [1, 2] = Some 1" by code_simp
  show ?thesis
    using sk hd lk findNodeDelete_top_layer [OF sk hd lk, of "[None, None]" "[None, None]"]
    by simp
qed

text \<open>
  The lowest level at which the node of \<open>''a''\<close> is the recorded successor is level \<open>0\<close>,
  and \<open>findNodeDelete\<close> returns \<open>1\<close>.
\<close>

theorem findNodeDelete_not_lowest:
  "findNodeDelete 2 len_hash one_key_map ''a'' [None, None] [None, None] =
     Some (Inr (1, [Some 0, Some 0], [Some 1, Some 1]))
   \<and> cmp (nodes one_key_map ! 1) (len_hash ''a'') ''a'' = 0"
  by code_simp

lemma found_iff:
  assumes "quiescent ml hash s xs"
  shows "(\<exists>v. Load ml hash k s = Some (Inr (v, True))) \<longleftrightarrow> k \<in> dom (amap (nodes s) xs)"
  using Load_amap [OF assms, of k] by (cases "amap (nodes s) xs k") (auto simp add: ret_def)







text \<open>
  C7. On a well-formed map, when no node holds the key \<open>k\<close>, or the node that holds it is
  already marked (or is not yet fully linked), \<open>LoadAndDelete k\<close> returns \<open>(nil, false)\<close>
  and \<open>Delete k\<close> returns, and both leave the whole map as it was: the links, the nodes,
  their flags and values, and the counter.
\<close>

theorem delete_not_present:
  assumes "skiplist ml hash (nodes s) xs" and "header s = Some 0"
    and "lookup (nodes s) k xs = None
         \<or> (\<exists>b. lookup (nodes s) k xs = Some b
                \<and> (Get (flags (nodes s ! b)) marked \<or> \<not> Get (flags (nodes s ! b)) fullyLinked))"
  shows "LoadAndDelete ml hash k s = Some (Inr ((None, False), s))
       \<and> Delete ml hash k s = Some (Inr s)"
proof -
  have "\<not> MGet f {fullyLinked, marked} {fullyLinked}"
    if "Get f marked \<or> \<not> Get f fullyLinked" for f
    using that by (auto simp add: Get_def MGet_def)
  then have "lookup (nodes s) k xs = None
         \<or> (\<exists>b. lookup (nodes s) k xs = Some b
                \<and> \<not> MGet (flags (nodes s ! b)) {fullyLinked, marked} {fullyLinked})"
    using assms(3) by blast
  then have l: "LoadAndDelete ml hash k s = ret ((None, False), s)"
    by (rule LoadAndDelete_hidden [OF assms(1,2)])
  then have "Delete ml hash k s = ret s" by (simp add: Delete_def)
  then show ?thesis using l by (simp add: ret_def)
qed

theorem delete_not_present_witness:
  "skiplist 2 len_hash (nodes two_key_map) [1, 2] \<and> header two_key_map = Some 0
   \<and> lookup (nodes two_key_map) ''zz'' [1, 2] = None
   \<and> LoadAndDelete 2 len_hash ''zz'' two_key_map = Some (Inr ((None, False), two_key_map))
   \<and> Delete 2 len_hash ''zz'' two_key_map = Some (Inr two_key_map)
   \<and> skiplist 2 len_hash (nodes marked_map) [1] \<and> header marked_map = Some 0
   \<and> lookup (nodes marked_map) ''a'' [1] = Some 1 \<and> Get (flags (nodes marked_map ! 1)) marked
   \<and> LoadAndDelete 2 len_hash ''a'' marked_map = Some (Inr ((None, False), marked_map))
   \<and> Delete 2 len_hash ''a'' marked_map = Some (Inr marked_map)"
proof -
  have a: "skiplist 2 len_hash (nodes two_key_map) [1, 2]" "header two_key_map = Some 0"
    "lookup (nodes two_key_map) ''zz'' [1, 2] = None"
    by code_simp+
  have m: "skiplist 2 len_hash (nodes marked_map) [1]" "header marked_map = Some 0"
    "lookup (nodes marked_map) ''a'' [1] = Some 1" "Get (flags (nodes marked_map ! 1)) marked"
    by code_simp+
  have m': "lookup (nodes marked_map) ''a'' [1] = None
         \<or> (\<exists>b. lookup (nodes marked_map) ''a'' [1] = Some b
                \<and> (Get (flags (nodes marked_map ! b)) marked
                    \<or> \<not> Get (flags (nodes marked_map ! b)) fullyLinked))"
    using m(3,4) by blast
  show ?thesis
    using a m delete_not_present [OF a(1,2) disjI1 [OF a(3)]] delete_not_present [OF m(1,2) m']
    by blast
qed

text \<open>
  C8. On a well-formed map, when an unmarked node \<open>b\<close> holds the key \<open>k\<close>, \<open>Store k v\<close>
  returns the map with the value of \<open>b\<close> replaced by \<open>v\<close> and nothing else changed: the
  links, heights, keys, flags and mutexes of all nodes, the header and the counter are
  as before. No lock is taken, and the level drawn for the call plays no part.
\<close>

theorem store_present_frame:
  assumes "skiplist ml hash (nodes s) xs" and "header s = Some 0"
    and "lookup (nodes s) k xs = Some b" and "\<not> Get (flags (nodes s ! b)) marked"
  shows "\<exists>s'. Store ml hash k v level s = Some (Inr s')
           \<and> s' = s\<lparr>nodes := (nodes s)[b := (nodes s ! b)\<lparr>val := v\<rparr>]\<rparr>
           \<and> val (nodes s' ! b) = v
           \<and> mlength s' = mlength s \<and> header s' = header s
           \<and> length (nodes s') = length (nodes s)
           \<and> (\<forall>a<length (nodes s).
                  nxt (nodes s' ! a) = nxt (nodes s ! a) \<and> key (nodes s' ! a) = key (nodes s ! a)
                  \<and> score (nodes s' ! a) = score (nodes s ! a)
                  \<and> flags (nodes s' ! a) = flags (nodes s ! a) \<and> mu (nodes s' ! a) = mu (nodes s ! a)
                  \<and> (a \<noteq> b \<longrightarrow> nodes s' ! a = nodes s ! a))"
proof -
  have bl: "b < length (nodes s)"
    using skiplist_bound [OF assms(1), of b] lookup_mem [OF assms(3)] by simp
  have st: "Store ml hash k v level s = ret (s\<lparr>nodes := (nodes s)[b := (nodes s ! b)\<lparr>val := v\<rparr>]\<rparr>)"
    by (rule Store_present [OF assms])
  have "nxt ((nodes s)[b := (nodes s ! b)\<lparr>val := v\<rparr>] ! a) = nxt (nodes s ! a)
      \<and> key ((nodes s)[b := (nodes s ! b)\<lparr>val := v\<rparr>] ! a) = key (nodes s ! a)
      \<and> score ((nodes s)[b := (nodes s ! b)\<lparr>val := v\<rparr>] ! a) = score (nodes s ! a)
      \<and> flags ((nodes s)[b := (nodes s ! b)\<lparr>val := v\<rparr>] ! a) = flags (nodes s ! a)
      \<and> mu ((nodes s)[b := (nodes s ! b)\<lparr>val := v\<rparr>] ! a) = mu (nodes s ! a)
      \<and> (a \<noteq> b \<longrightarrow> (nodes s)[b := (nodes s ! b)\<lparr>val := v\<rparr>] ! a = nodes s ! a)" for a
    using bl by (cases "a = b") simp_all
  then show ?thesis
    using st bl by (simp add: ret_def)
qed

theorem store_present_frame_witness:
  "skiplist 2 len_hash (nodes two_key_map) [1, 2] \<and> header two_key_map = Some 0
   \<and> lookup (nodes two_key_map) ''a'' [1, 2] = Some 1
   \<and> \<not> Get (flags (nodes two_key_map ! 1)) marked
   \<and> Store 2 len_hash ''a'' (Some 5) 1 two_key_map =
        Some (Inr (two_key_map\<lparr>nodes := (nodes two_key_map)[1 := (nodes two_key_map ! 1)\<lparr>val := Some 5\<rparr>]\<rparr>))"
proof -
  have a: "skiplist 2 len_hash (nodes two_key_map) [1, 2]" "header two_key_map = Some 0"
    "lookup (nodes two_key_map) ''a'' [1, 2] = Some 1"
    "\<not> Get (flags (nodes two_key_map ! 1)) marked"
    by code_simp+
  show ?thesis
    using a store_present_frame [OF a, of "Some 5" 1] by blast
qed

text \<open>
  C9 (as amended). On a map with no operation in flight (every linked node is fully
  linked, unmarked and unlocked), when \<open>Load\<close> does not find the key \<open>k\<close>,
  \<open>LoadOrStore k v\<close> stores \<open>v\<close>, so that \<open>Load k\<close> then returns \<open>(v, True)\<close>, and it returns
  \<open>loaded = False\<close> with the \<open>nil\<close> value as \<open>actual\<close>, not \<open>v\<close>.
\<close>

theorem load_or_store_absent:
  assumes qs: "quiescent ml hash s xs" and lv: "0 < level" "level \<le> ml"
    and ab: "\<nexists>w. Load ml hash k s = Some (Inr (w, True))"
  shows "\<exists>s'. LoadOrStore ml hash k v level s = Some (Inr ((None, False), s'))
           \<and> Load ml hash k s' = Some (Inr (v, True))"
proof -
  have "k \<notin> dom (amap (nodes s) xs)" using ab found_iff [OF qs, of k] by simp
  then have l: "Load ml hash k s = ret (None, False)"
    using Load_amap [OF qs, of k] by (simp add: domIff)
  obtain s' xs' where st: "Store ml hash k v level s = ret s'" and q': "quiescent ml hash s' xs'"
    and am: "amap (nodes s') xs' = (amap (nodes s) xs)(k \<mapsto> v)"
    using Store_quiescent [OF qs lv, of k v] by blast
  have l': "Load ml hash k s' = ret (v, True)"
    using Load_amap [OF q', of k] am by simp
  have "LoadOrStore ml hash k v level s = ret ((None, False), s')"
    using l st by (simp add: LoadOrStore_def)
  then show ?thesis
    using l' by (auto simp add: ret_def)
qed

theorem load_or_store_absent_witness:
  "quiescent 2 len_hash one_key_map [1] \<and> (0::nat) < 1 \<and> (1::nat) \<le> 2
   \<and> (\<nexists>w. Load 2 len_hash ''bc'' one_key_map = Some (Inr (w, True)))
   \<and> LoadOrStore 2 len_hash ''bc'' (Some 7) 1 one_key_map = Some (Inr ((None, False), two_key_map))
   \<and> Load 2 len_hash ''bc'' two_key_map = Some (Inr (Some 7, True))"
proof -
  have q: "quiescent 2 len_hash one_key_map [1]" by code_simp
  have l: "(0::nat) < 1" "(1::nat) \<le> 2" by simp_all
  have "Load 2 len_hash ''bc'' one_key_map = Some (Inr (None, False))" by code_simp
  then have a: "\<nexists>w. Load 2 len_hash ''bc'' one_key_map = Some (Inr (w, True))" by simp
  have e: "LoadOrStore 2 len_hash ''bc'' (Some 7) 1 one_key_map = Some (Inr ((None, False), two_key_map))"
    by code_simp
  obtain s' where "LoadOrStore 2 len_hash ''bc'' (Some 7) 1 one_key_map = Some (Inr ((None, False), s'))"
    and r: "Load 2 len_hash ''bc'' s' = Some (Inr (Some 7, True))"
    using load_or_store_absent [OF q l a, of "Some 7"] by blast
  then have "s' = two_key_map" using e by simp
  then show ?thesis using q l a e r by blast
qed

text \<open>
  While another \<open>Store\<close> of \<open>''a''\<close> has linked its node and not yet set \<open>fullyLinked\<close>,
  \<open>Load\<close> does not find \<open>''a''\<close>; \<open>LoadOrStore ''a'' 5\<close> then calls \<open>Store\<close>, which replaces
  the value of the pending node and returns, and a subsequent \<open>Load ''a''\<close> still returns
  \<open>(nil, False)\<close>.
\<close>

theorem load_or_store_in_flight:
  "Load 2 len_hash ''a'' pending_map = Some (Inr (None, False))
   \<and> LoadOrStore 2 len_hash ''a'' (Some 5) 1 pending_map
     = Some (Inr ((None, False),
          pending_map\<lparr>nodes := (nodes pending_map)[1 := (nodes pending_map ! 1)\<lparr>val := Some 5\<rparr>]\<rparr>))
   \<and> Load 2 len_hash ''a'' (pending_map\<lparr>nodes := (nodes pending_map)[1 := (nodes pending_map ! 1)\<lparr>val := Some 5\<rparr>]\<rparr>)
     = Some (Inr (None, False))"
  by code_simp

text \<open>
  C10 (as amended). On a map with no operation in flight, reached from \<open>NewString\<close> by
  completed calls of \<open>Store\<close> and \<open>Delete\<close>, the header still has the key \<open>''''\<close> and the
  score \<open>hash ''''\<close>, and yet \<open>Store '''' v\<close> returns and \<open>Load ''''\<close> then returns
  \<open>(v, True)\<close>, as for any other key. The key and score of the header play no part in a
  search: \<open>Load\<close> gives the same result when they are replaced by any others.
\<close>

theorem empty_key_is_a_key:
  assumes re: "reachable ml hash s" and ml: "0 < ml" and lv: "0 < level" "level \<le> ml"
  shows "header s = Some 0 \<and> key (nodes s ! 0) = '''' \<and> score (nodes s ! 0) = hash ''''
       \<and> (\<exists>s'. Store ml hash '''' v level s = Some (Inr s')
                \<and> Load ml hash '''' s' = Some (Inr (v, True)))
       \<and> (\<forall>k k' sc'. Load ml hash k (s\<lparr>nodes := (nodes s)[0 := (nodes s ! 0)\<lparr>key := k', score := sc'\<rparr>]\<rparr>)
                          = Load ml hash k s)"
proof -
  obtain xs where qs: "quiescent ml hash s xs"
    and h: "key (nodes s ! 0) = ''''" "score (nodes s ! 0) = hash ''''"
    using reachable_quiescent [OF re ml] by blast
  have sk: "skiplist ml hash (nodes s) xs" and hd: "header s = Some 0"
    using qs by (simp_all add: quiescent_def)
  obtain s' xs' where st: "Store ml hash '''' v level s = ret s'" and q': "quiescent ml hash s' xs'"
    and am: "amap (nodes s') xs' = (amap (nodes s) xs)('''' \<mapsto> v)"
    using Store_quiescent [OF qs lv, of "''''" v] by blast
  have ld: "Load ml hash '''' s' = ret (v, True)"
    using Load_amap [OF q', of "''''"] am by simp
  have ind: "Load ml hash k (s\<lparr>nodes := (nodes s)[0 := (nodes s ! 0)\<lparr>key := k', score := sc'\<rparr>]\<rparr>)
                          = Load ml hash k s" for k k' sc'
  proof -
    let ?hs = "(nodes s)[0 := (nodes s ! 0)\<lparr>key := k', score := sc'\<rparr>]"
    have z: "0 \<notin> set xs" using sk by (simp add: skiplist_def)
    have l0: "0 < length (nodes s)" using skiplist_bound [OF sk, of 0] by simp
    have same: "?hs ! a = nodes s ! a" if "a \<in> set xs" for a
      using that z by (cases "a = 0") simp_all
    have nx: "nxt (?hs ! a) = nxt (nodes s ! a)" for a
      using l0 by (cases "a = 0") simp_all
    have sk2: "skiplist ml hash ?hs xs"
      by (rule skiplist_cong [OF sk]) (simp_all add: same nx)
    have "lookup ?hs k xs = lookup (nodes s) k xs"
      unfolding lookup_def using same by (intro find_cong refl) simp
    moreover have "lookup (nodes s) k xs = Some b \<Longrightarrow> ?hs ! b = nodes s ! b" for b
      using lookup_mem [of "nodes s" k xs b] same by simp
    ultimately show ?thesis
      using Load_lookup [OF sk hd, of k]
        Load_lookup [of ml hash "s\<lparr>nodes := ?hs\<rparr>" xs k] sk2 hd
      by (cases "lookup (nodes s) k xs") simp_all
  qed
  show ?thesis
    using hd h st ld ind by (simp add: ret_def)
qed

theorem empty_key_is_a_key_witness:
  "reachable 2 len_hash one_key_map \<and> (0::nat) < 2 \<and> (0::nat) < 1 \<and> (1::nat) \<le> 2
   \<and> key (nodes one_key_map ! 0) = '''' \<and> score (nodes one_key_map ! 0) = len_hash ''''
   \<and> (\<exists>s'. Store 2 len_hash '''' (Some 3) 1 one_key_map = Some (Inr s')
                \<and> Load 2 len_hash '''' s' = Some (Inr (Some 3, True)))"
proof -
  have s1: "Store 2 len_hash ''a'' (Some 1) 2 (NewString 2 len_hash None) = Some (Inr one_key_map)"
    by code_simp
  have r: "reachable 2 len_hash one_key_map"
    by (rule reachable.store [OF reachable.new _ _ s1]) simp_all
  have l: "(0::nat) < 2" "(0::nat) < 1" "(1::nat) \<le> 2" by simp_all
  show ?thesis
    using r l empty_key_is_a_key [OF r l, of "Some 3"] by blast
qed

text \<open>
  In this the empty key is like any other key also while an operation is in flight: when
  another \<open>Store\<close> of \<open>''''\<close> has linked its node and not yet set \<open>fullyLinked\<close>, \<open>Store '''' 5\<close>
  replaces the value of the pending node and returns, and \<open>Load ''''\<close> then returns
  \<open>(nil, False)\<close>.
\<close>

theorem empty_key_in_flight:
  "Store 2 len_hash '''' (Some 5) 1 pending_empty_key_map
     = Some (Inr (pending_empty_key_map\<lparr>nodes := (nodes pending_empty_key_map)[1 := (nodes pending_empty_key_map ! 1)\<lparr>val := Some 5\<rparr>]\<rparr>))
   \<and> Load 2 len_hash '''' (pending_empty_key_map\<lparr>nodes := (nodes pending_empty_key_map)[1 := (nodes pending_empty_key_map ! 1)\<lparr>val := Some 5\<rparr>]\<rparr>)
     = Some (Inr (None, False))"
  by code_simp

end
